theory Spec2Isabelle
  imports Main
begin

section \<open>Task records of the orchestration state\<close>

text \<open>
  A task of the live state file is a JSON object written from the \<open>TaskEntry\<close>
  dataclass of \<open>init_orchestration.py\<close>.  The record keeps the fields the modelled
  functions read or write.  A field the code reads with \<open>.get(key)\<close> and that may
  be absent or \<open>null\<close> is an option; a list field read with \<open>.get(key, [])\<close>
  is a list (an absent key reads as the empty list).
\<close>

record task =
  task_id :: string
  status :: "string option"
  dependencies :: "string list"
  subtasks :: "string list"
  parent_id :: "string option"
  writes :: "string list"
  reads :: "string list"
  fix_attempts :: "int option"

text \<open>
  A task as \<open>init_orchestration.py\<close> first writes it: the given id, status,
  subtasks and file manifest, no dependency, no parent and no completed fix attempt.
\<close>

definition new_task :: "string \<Rightarrow> string \<Rightarrow> string list \<Rightarrow> string list \<Rightarrow> string list \<Rightarrow> task" where
  "new_task i st subs ws rs =
     \<lparr>task_id = i, status = Some st, dependencies = [], subtasks = subs, parent_id = None,
      writes = ws, reads = rs, fix_attempts = Some 0\<rparr>"

section \<open>Fix loop: \<open>fix_loop.py\<close>\<close>

definition MAX_FIX_ATTEMPTS :: int where
  "MAX_FIX_ATTEMPTS = 3"

definition ESCALATION_THRESHOLD :: int where
  "ESCALATION_THRESHOLD = 2"

datatype FixLoopAction = PASS | RETRY | ESCALATE | HUMAN_FALLBACK

definition should_enter_fix_loop :: "string \<Rightarrow> bool" where
  "should_enter_fix_loop severity = (severity \<in> set [''critical'', ''major''])"

text \<open>\<open>task.get("fix_attempts", 0)\<close>: an absent key counts as no completed attempt.\<close>

definition completed_attempts_of :: "'a task_scheme \<Rightarrow> int" where
  "completed_attempts_of t = (case fix_attempts t of None \<Rightarrow> 0 | Some n \<Rightarrow> n)"

definition evaluate_fix_loop_action :: "'a task_scheme \<Rightarrow> string \<Rightarrow> FixLoopAction" where
  "evaluate_fix_loop_action t severity =
     (if \<not> should_enter_fix_loop severity then PASS
      else if completed_attempts_of t \<ge> MAX_FIX_ATTEMPTS then HUMAN_FALLBACK
      else if completed_attempts_of t \<ge> ESCALATION_THRESHOLD then ESCALATE
      else RETRY)"

section \<open>Batch partitioning: \<open>dispatch_batch.py\<close>\<close>

record FileConflict =
  task_a :: string
  task_b :: string
  files :: "string list"
  conflict_type :: string

text \<open>
  \<open>detect_file_conflicts\<close>: for every task and every later task of the list, the
  shared written files; a non-empty intersection is recorded as a write-write
  conflict.  \<open>list(shared_writes)\<close> lists a Python set, in no specified order; the
  model lists the shared files in the order of the first task's \<open>writes\<close>.
\<close>

definition shared_writes :: "'a task_scheme \<Rightarrow> 'a task_scheme \<Rightarrow> string list" where
  "shared_writes a b = filter (\<lambda>f. f \<in> set (writes b)) (remdups (writes a))"

fun detect_file_conflicts :: "'a task_scheme list \<Rightarrow> FileConflict list" where
  "detect_file_conflicts [] = []"
| "detect_file_conflicts (a # rest) =
     concat (map (\<lambda>b. if shared_writes a b \<noteq> []
                         then [\<lparr>task_a = task_id a, task_b = task_id b,
                                files = shared_writes a b, conflict_type = ''write-write''\<rparr>]
                         else []) rest)
     @ detect_file_conflicts rest"

definition conflict_pairs_of :: "FileConflict list \<Rightarrow> (string \<times> string) set" where
  "conflict_pairs_of conflicts =
     set (map (\<lambda>c. (task_a c, task_b c)) conflicts) \<union> set (map (\<lambda>c. (task_b c, task_a c)) conflicts)"

text \<open>
  The inner loop of the greedy colouring: the task joins the first batch none of whose
  members' ids is paired with its id; \<open>None\<close> is the loop ending with
  \<open>placed = False\<close>.
\<close>

fun place_in_batch ::
  "(string \<times> string) set \<Rightarrow> 'a task_scheme \<Rightarrow> 'a task_scheme list list
     \<Rightarrow> 'a task_scheme list list option" where
  "place_in_batch pairs t [] = None"
| "place_in_batch pairs t (b # bs) =
     (if \<not> list_ex (\<lambda>bid. (task_id t, bid) \<in> pairs) (map task_id b)
      then Some ((b @ [t]) # bs)
      else map_option (\<lambda>bs'. b # bs') (place_in_batch pairs t bs))"

definition colour_step ::
  "(string \<times> string) set \<Rightarrow> 'a task_scheme \<Rightarrow> 'a task_scheme list list \<times> string set
     \<Rightarrow> 'a task_scheme list list \<times> string set" where
  "colour_step pairs t st =
     (case st of (batches, assigned) \<Rightarrow>
        if task_id t \<in> assigned then (batches, assigned)
        else (case place_in_batch pairs t batches of
                Some batches' \<Rightarrow> (batches', insert (task_id t) assigned)
              | None \<Rightarrow> (batches @ [[t]], insert (task_id t) assigned)))"

definition no_manifest :: "'a task_scheme \<Rightarrow> bool" where
  "no_manifest t = (writes t = [] \<and> reads t = [])"

definition partition_by_conflicts :: "'a task_scheme list \<Rightarrow> 'a task_scheme list list" where
  "partition_by_conflicts tasks =
     (let no_manifest_tasks = filter no_manifest tasks;
          safe_tasks = filter (\<lambda>t. \<not> no_manifest t) tasks;
          batches =
            (if safe_tasks \<noteq> [] then
               (let write_tasks = filter (\<lambda>t. writes t \<noteq> []) safe_tasks;
                    read_only_tasks = filter (\<lambda>t. writes t = []) safe_tasks;
                    conflicts = detect_file_conflicts write_tasks;
                    conflict_pairs = conflict_pairs_of conflicts;
                    coloured = fst (fold (colour_step conflict_pairs) write_tasks ([], {}))
                in if read_only_tasks \<noteq> [] then
                     (case coloured of
                        b # bs \<Rightarrow> (b @ read_only_tasks) # bs
                      | [] \<Rightarrow> [read_only_tasks])
                   else coloured)
             else [])
      in batches @ map (\<lambda>t. [t]) no_manifest_tasks)"

subsection \<open>Auxiliary notions: conflict-free batches\<close>

text \<open>
  Two tasks are write-disjoint when their \<open>writes\<close> lists share no file; a batch is
  conflict-free when its members, taken at different positions, are pairwise
  write-disjoint.
\<close>

definition writes_disjoint :: "'a task_scheme \<Rightarrow> 'a task_scheme \<Rightarrow> bool" where
  "writes_disjoint a b = (set (writes a) \<inter> set (writes b) = {})"

fun conflict_free :: "'a task_scheme list \<Rightarrow> bool" where
  "conflict_free [] = True"
| "conflict_free (t # ts) = (list_all (writes_disjoint t) ts \<and> conflict_free ts)"

text \<open>
  The invariant of the greedy colouring loop over the write tasks \<open>ws\<close>: every batch
  built so far is conflict-free, holds tasks of \<open>ws\<close> only, and the ids of its
  members are all in \<open>assigned\<close>.
\<close>

definition col_inv :: "'a task_scheme list \<Rightarrow> 'a task_scheme list list \<times> string set \<Rightarrow> bool" where
  "col_inv ws st = (\<forall>b\<in>set (fst st). conflict_free b \<and> set b \<subseteq> set ws \<and> task_id ` set b \<subseteq> snd st)"

text \<open>
  The batches \<open>partition_by_conflicts\<close> builds from the tasks that have a manifest,
  before the serial batches of the other tasks are appended.
\<close>

definition manifest_batches :: "'a task_scheme list \<Rightarrow> 'a task_scheme list list" where
  "manifest_batches tasks =
     (let safe_tasks = filter (\<lambda>t. \<not> no_manifest t) tasks in
      if safe_tasks \<noteq> [] then
               (let write_tasks = filter (\<lambda>t. writes t \<noteq> []) safe_tasks;
                    read_only_tasks = filter (\<lambda>t. writes t = []) safe_tasks;
                    conflicts = detect_file_conflicts write_tasks;
                    conflict_pairs = conflict_pairs_of conflicts;
                    coloured = fst (fold (colour_step conflict_pairs) write_tasks ([], {}))
                in if read_only_tasks \<noteq> [] then
                     (case coloured of
                        b # bs \<Rightarrow> (b @ read_only_tasks) # bs
                      | [] \<Rightarrow> [read_only_tasks])
                   else coloured)
             else [])"

section \<open>Parent status aggregation: \<open>init_orchestration.py\<close>\<close>

text \<open>
  \<open>update_parent_statuses\<close> mutates the task objects of \<open>state["tasks"]\<close> in place.
  The model is the task list, and an object is named by its position in the list.
  \<open>task_map\<close>, the dict comprehension \<open>{t["task_id"]: t for t in tasks}\<close>, maps an id
  to the position of the last task carrying it (a later entry of a comprehension
  replaces an earlier one); it is built once, before the loop, and its positions are
  always inside the list.
\<close>

definition task_index_map :: "'a task_scheme list \<Rightarrow> (string \<rightharpoonup> nat)" where
  "task_index_map ts = map_of (rev (zip (map task_id ts) [0..<length ts]))"

text \<open>\<open>task_map[sid].get("status", "not_started")\<close>\<close>

definition status_or_default :: "'a task_scheme \<Rightarrow> string" where
  "status_or_default t = (case status t of None \<Rightarrow> ''not_started'' | Some s \<Rightarrow> s)"

definition subtask_statuses ::
  "'a task_scheme list \<Rightarrow> (string \<rightharpoonup> nat) \<Rightarrow> string list \<Rightarrow> string list" where
  "subtask_statuses ts task_map subtask_ids =
     concat (map (\<lambda>sid. case task_map sid of
                           Some j \<Rightarrow> [status_or_default (ts ! j)]
                         | None \<Rightarrow> []) subtask_ids)"

text \<open>The \<open>if\<close>/\<open>elif\<close> chain over \<open>subtask_statuses\<close>, with Python's \<open>all\<close> and \<open>any\<close>.\<close>

definition derive_parent_status :: "string list \<Rightarrow> string" where
  "derive_parent_status sts =
     (if list_all (\<lambda>s. s = ''completed'') sts then ''completed''
      else if list_ex (\<lambda>s. s = ''blocked'') sts then ''blocked''
      else if list_ex (\<lambda>s. s = ''fix_required'') sts then ''fix_required''
      else if list_ex (\<lambda>s. s \<in> set [''in_progress'', ''pending_review'', ''under_review'',
                                       ''final_review'']) sts then ''in_progress''
      else ''not_started'')"

text \<open>One iteration of the loop, for the task at position \<open>i\<close>.\<close>

definition update_parent_at ::
  "(string \<rightharpoonup> nat) \<Rightarrow> nat \<Rightarrow> 'a task_scheme list \<Rightarrow> 'a task_scheme list" where
  "update_parent_at task_map i ts =
     (let task = ts ! i; subtask_ids = subtasks task in
      if subtask_ids = [] then ts
      else (let sts = subtask_statuses ts task_map subtask_ids in
            if sts = [] then ts
            else ts[i := task\<lparr>status := Some (derive_parent_status sts)\<rparr>]))"

text \<open>\<open>for task in reversed(state.get("tasks", []))\<close>: the positions from the last to the first.\<close>

definition update_parent_statuses :: "'a task_scheme list \<Rightarrow> 'a task_scheme list" where
  "update_parent_statuses ts =
     fold (update_parent_at (task_index_map ts)) (rev [0..<length ts]) ts"

text \<open>
  The derivation as the specification words it: by strict priority over the statuses
  of the direct subtasks.
\<close>

definition derived_status :: "string list \<Rightarrow> string" where
  "derived_status sts =
     (if (\<forall>s\<in>set sts. s = ''completed'') then ''completed''
      else if ''blocked'' \<in> set sts then ''blocked''
      else if ''fix_required'' \<in> set sts then ''fix_required''
      else if ''in_progress'' \<in> set sts \<or> ''pending_review'' \<in> set sts
              \<or> ''under_review'' \<in> set sts \<or> ''final_review'' \<in> set sts then ''in_progress''
      else ''not_started'')"

text \<open>
  The statuses a task's derivation reads in a task list: those of its direct subtasks
  that are present in the list.
\<close>

definition present_subtask_statuses :: "'a task_scheme list \<Rightarrow> nat \<Rightarrow> string list" where
  "present_subtask_statuses ts i = subtask_statuses ts (task_index_map ts) (subtasks (ts ! i))"

text \<open>Document order: every task stands before all the tasks its \<open>subtasks\<close> list names.\<close>

definition parents_first :: "'a task_scheme list \<Rightarrow> bool" where
  "parents_first ts =
     (\<forall>i<length ts. \<forall>sid\<in>set (subtasks (ts ! i)). \<forall>j<length ts. task_id (ts ! j) = sid \<longrightarrow> i < j)"

text \<open>
  The loop invariant at one position: the task there has no present subtask, or its
  status is the one derived from the present subtasks' statuses.
\<close>

definition derived_at :: "'a task_scheme list \<Rightarrow> (string \<rightharpoonup> nat) \<Rightarrow> nat \<Rightarrow> bool" where
  "derived_at ts m i =
     (subtask_statuses ts m (subtasks (ts ! i)) = []
      \<or> status (ts ! i) = Some (derive_parent_status (subtask_statuses ts m (subtasks (ts ! i)))))"

section \<open>Python strings\<close>

text \<open>
  A Python \<open>str\<close> is modelled as a \<open>string\<close>, each \<open>char\<close> standing for the code
  point of the same number; the model covers the code points below 256.
  \<open>str.isspace\<close>, which \<open>str.strip\<close> and the regular expression class \<open>\s\<close> both
  follow, holds there for the code points 9 to 13, 28 to 32, 133 and 160; the decimal
  digits (\<open>\d\<close>, \<open>int\<close>) are the ASCII digits.
\<close>

definition is_space :: "char \<Rightarrow> bool" where
  "is_space c = (let n = (of_char c :: nat) in (9 \<le> n \<and> n \<le> 13) \<or> (28 \<le> n \<and> n \<le> 32) \<or> n = 133 \<or> n = 160)"

definition is_digit :: "char \<Rightarrow> bool" where
  "is_digit c = (let n = (of_char c :: nat) in 48 \<le> n \<and> n \<le> 57)"

definition digit_value :: "char \<Rightarrow> nat" where
  "digit_value c = of_char c - 48"

definition strip :: "string \<Rightarrow> string" where
  "strip s = rev (dropWhile is_space (rev (dropWhile is_space s)))"

text \<open>
  \<open>int(s)\<close> for a string: surrounding whitespace is ignored, then an optional sign and
  decimal digits, where single underscores may separate digits; anything else raises
  \<open>ValueError\<close>, here \<open>None\<close>.
\<close>

fun digits_from :: "nat \<Rightarrow> string \<Rightarrow> nat option" where
  "digits_from acc [] = Some acc"
| "digits_from acc [c] = (if is_digit c then Some (acc * 10 + digit_value c) else None)"
| "digits_from acc (c # d # cs) =
     (if is_digit c then digits_from (acc * 10 + digit_value c) (d # cs)
      else if c = CHR ''_'' \<and> is_digit d then digits_from (acc * 10 + digit_value d) cs
      else None)"

definition unsigned_of_string :: "string \<Rightarrow> nat option" where
  "unsigned_of_string s =
     (case s of [] \<Rightarrow> None
      | c # cs \<Rightarrow> if is_digit c then digits_from (digit_value c) cs else None)"

definition int_of_string :: "string \<Rightarrow> int option" where
  "int_of_string s =
     (case strip s of
        [] \<Rightarrow> None
      | c # cs \<Rightarrow>
          if c = CHR ''-'' then map_option (\<lambda>n. - int n) (unsigned_of_string cs)
          else if c = CHR ''+'' then map_option int (unsigned_of_string cs)
          else map_option int (unsigned_of_string (c # cs)))"

section \<open>Timeout resolution: \<open>codeagent_wrapper_utils.py\<close> and \<open>dispatch_task.py\<close>\<close>

text \<open>
  Both functions read the environment variable \<open>CODEX_TIMEOUT\<close>; its value, \<open>None\<close>
  when it is unset, is the first argument of the models.
\<close>

definition resolve_codex_timeout_seconds :: "string option \<Rightarrow> int \<Rightarrow> int \<Rightarrow> int" where
  "resolve_codex_timeout_seconds env default_seconds buffer_seconds =
     (let raw = strip (case env of None \<Rightarrow> [] | Some v \<Rightarrow> v);
          timeout_seconds =
            (if raw \<noteq> [] then
               (case int_of_string raw of
                  Some parsed \<Rightarrow>
                    if parsed > 0 then (if parsed > 10000 then parsed div 1000 else parsed)
                    else default_seconds
                | None \<Rightarrow> default_seconds)
             else default_seconds)
      in max 60 timeout_seconds + max 0 buffer_seconds)"

definition resolve_timeout_seconds :: "string option \<Rightarrow> int \<Rightarrow> int" where
  "resolve_timeout_seconds env default_seconds =
     (let raw = strip (case env of None \<Rightarrow> [] | Some v \<Rightarrow> v) in
      if raw = [] then default_seconds
      else (case int_of_string raw of
              Some ms \<Rightarrow> if ms \<le> 0 then default_seconds else max 1 (ms div 1000)
            | None \<Rightarrow> default_seconds))"

text \<open>\<open>s.startswith(p)\<close> and \<open>sub in s\<close>.\<close>

fun starts_with :: "string \<Rightarrow> string \<Rightarrow> bool" where
  "starts_with s [] = True"
| "starts_with [] (p # ps) = False"
| "starts_with (c # cs) (p # ps) = (c = p \<and> starts_with cs ps)"

fun is_substring :: "string \<Rightarrow> string \<Rightarrow> bool" where
  "is_substring sub [] = (sub = [])"
| "is_substring sub (c # cs) = (starts_with (c # cs) sub \<or> is_substring sub cs)"

text \<open>\<open>str(n)\<close> for an integer, as the f-strings format it.\<close>

definition decimal_digit :: "nat \<Rightarrow> char" where
  "decimal_digit k = char_of (48 + k)"

fun string_of_nat :: "nat \<Rightarrow> string" where
  "string_of_nat n =
     (let last_digit = decimal_digit (n mod 10) in
      if n < 10 then [last_digit] else string_of_nat (n div 10) @ [last_digit])"

definition string_of_int :: "int \<Rightarrow> string" where
  "string_of_int i = (if i < 0 then CHR ''-'' # string_of_nat (nat (- i)) else string_of_nat (nat i))"

section \<open>Sequential dispatch: \<open>dispatch_task.py\<close>\<close>

text \<open>
  An entry of the wrapper tool's \<open>task_results\<close>, with the keys \<open>dispatch_task\<close>
  reads; an absent key is \<open>None\<close>.
\<close>

record task_result =
  tr_task_id :: "string option"
  tr_message :: "string option"
  tr_error :: "string option"
  tr_exit_code :: "int option"

record DispatchResult =
  success :: bool
  completed :: bool
  halted :: bool
  message :: string
  output_text :: string

definition TASK_DONE_marker :: string where
  "TASK_DONE_marker = ''<promise>TASK_DONE</promise>''"

definition COMPLETE_marker :: string where
  "COMPLETE_marker = ''<promise>COMPLETE</promise>''"

definition HALT_marker :: string where
  "HALT_marker = ''<promise>HALT</promise>''"

text \<open>
  \<open>next((r for r in task_results if r.get("task_id") == wrapper_task_id), None)\<close>, with
  the fall-back to the first entry.
\<close>

definition select_task_result :: "string \<Rightarrow> task_result list \<Rightarrow> task_result" where
  "select_task_result wrapper_task_id task_results =
     (case find (\<lambda>r. tr_task_id r = Some wrapper_task_id) task_results of
        Some r \<Rightarrow> r
      | None \<Rightarrow> hd task_results)"

text \<open>
  The end of \<open>dispatch_task\<close>, from the parsed execution report on: \<open>task_results\<close> are
  the report's entries, \<open>returncode\<close>, \<open>stdout\<close> and \<open>stderr\<close> those of the wrapper
  process.  \<open>hd\<close> is only applied to a non-empty list.
\<close>

definition dispatch_task_report ::
  "string \<Rightarrow> task_result list \<Rightarrow> int \<Rightarrow> string \<Rightarrow> string \<Rightarrow> DispatchResult" where
  "dispatch_task_report tid task_results returncode stdout stderr =
     (if task_results = [] then
        \<lparr>success = False, completed = False, halted = False,
         message = ''Task '' @ tid @ '': invalid execution report (no task_results)'',
         output_text = stdout\<rparr>
      else
        (let tr = select_task_result (''task-'' @ tid) task_results;
             message_text = (case tr_message tr of None \<Rightarrow> [] | Some m \<Rightarrow> m);
             err_text = (case tr_error tr of None \<Rightarrow> [] | Some e \<Rightarrow> e);
             exit_code = (case tr_exit_code tr of None \<Rightarrow> returncode | Some c \<Rightarrow> c);
             is_completed = (is_substring TASK_DONE_marker message_text
                             \<or> is_substring COMPLETE_marker message_text);
             is_halted = is_substring HALT_marker message_text
         in if is_halted then
              \<lparr>success = True, completed = False, halted = True,
               message = ''Task '' @ tid @ '' halted - human input required'',
               output_text = message_text\<rparr>
            else if is_completed \<or> exit_code = 0 then
              \<lparr>success = True, completed = True, halted = False,
               message = ''Task '' @ tid @ '' completed successfully'',
               output_text = message_text\<rparr>
            else
              \<lparr>success = False, completed = False, halted = False,
               message = ''Task '' @ tid @ '' failed (exit '' @ string_of_int exit_code @ ''): ''
                         @ (if strip err_text \<noteq> [] then strip err_text else strip stderr),
               output_text = message_text\<rparr>))"

text \<open>What \<open>dispatch_task\<close> reads of the selected entry.\<close>

definition message_text_of :: "string \<Rightarrow> task_result list \<Rightarrow> string" where
  "message_text_of tid task_results =
     (case tr_message (select_task_result (''task-'' @ tid) task_results) of
        None \<Rightarrow> [] | Some m \<Rightarrow> m)"

definition exit_code_of :: "string \<Rightarrow> task_result list \<Rightarrow> int \<Rightarrow> int" where
  "exit_code_of tid task_results returncode =
     (case tr_exit_code (select_task_result (''task-'' @ tid) task_results) of
        None \<Rightarrow> returncode | Some c \<Rightarrow> c)"

section \<open>Dependency expansion: \<open>spec_parser.py\<close>\<close>

text \<open>
  \<open>list(dict.fromkeys(xs))\<close>: the keys of a dict filled in the order of \<open>xs\<close>, that is
  \<open>xs\<close> without the later repetitions of an element.
\<close>

definition dict_fromkeys :: "'a list \<Rightarrow> 'a list" where
  "dict_fromkeys xs = fold (\<lambda>x acc. if x \<in> set acc then acc else acc @ [x]) xs []"

text \<open>
  \<open>expand_dependencies\<close> is the same function in the multi-agent and in the sequential
  \<open>spec_parser.py\<close>.  It calls itself once for every subtask of a parent, and Python
  bounds the depth of nested calls: the first argument is the number of nested calls
  still available, and \<open>None\<close> is the \<open>RecursionError\<close> raised when they are used up.
  \<open>task_map.get(dep_id)\<close> is the lookup in the map; a task object is always truthy.
\<close>

fun expand_dependencies ::
  "nat \<Rightarrow> string list \<Rightarrow> (string \<rightharpoonup> 'a task_scheme) \<Rightarrow> string list option" where
  "expand_dependencies 0 deps task_map = None"
| "expand_dependencies (Suc depth) deps task_map =
     map_option (\<lambda>parts. dict_fromkeys (concat parts))
       (those (map (\<lambda>dep_id.
          case task_map dep_id of
            Some dep_task \<Rightarrow>
              if subtasks dep_task \<noteq> [] then
                map_option concat
                  (those (map (\<lambda>subtask_id. expand_dependencies depth [subtask_id] task_map)
                     (subtasks dep_task)))
              else Some [dep_id]
          | None \<Rightarrow> Some [dep_id]) deps))"

subsection \<open>The expansion as the specification words it\<close>

text \<open>An id names a parent when the map has a task for it whose \<open>subtasks\<close> is not empty.\<close>

definition names_parent :: "(string \<rightharpoonup> 'a task_scheme) \<Rightarrow> string \<Rightarrow> bool" where
  "names_parent task_map i = (case task_map i of Some t \<Rightarrow> subtasks t \<noteq> [] | None \<Rightarrow> False)"

text \<open>
  \<open>flattened task_map h i xs\<close>: the id \<open>i\<close> flattens to the list \<open>xs\<close> of its leaf
  descendants, through at most \<open>h\<close> levels of parents.  An id that names no parent
  flattens to itself; a parent flattens to its subtasks' flattened lists, one after
  the other.
\<close>

inductive flattened :: "(string \<rightharpoonup> 'a task_scheme) \<Rightarrow> nat \<Rightarrow> string \<Rightarrow> string list \<Rightarrow> bool"
  for task_map :: "string \<rightharpoonup> 'a task_scheme" where
  leaf: "\<not> names_parent task_map i \<Longrightarrow> flattened task_map h i [i]"
| parent: "task_map i = Some t \<Longrightarrow> subtasks t \<noteq> []
     \<Longrightarrow> list_all2 (flattened task_map h) (subtasks t) xss
     \<Longrightarrow> flattened task_map (Suc h) i (concat xss)"

text \<open>De-duplication that keeps the first occurrence of every element, in order.\<close>

function keep_first :: "'a list \<Rightarrow> 'a list" where
  "keep_first [] = []"
| "keep_first (x # xs) = x # keep_first (removeAll x xs)"
  by pat_completeness auto
termination
  by (relation "measure length") (auto simp: less_Suc_eq_le length_removeAll_less_eq)

text \<open>
  The specification's example: the parent \<open>p\<close> has the subtasks \<open>a\<close> and \<open>b\<close>, and
  \<open>b\<close> is itself a parent with the subtasks \<open>b1\<close> and \<open>b2\<close>.
\<close>

definition nested_example :: "string \<rightharpoonup> task" where
  "nested_example =
     [''p'' \<mapsto> new_task ''p'' ''not_started'' [''a'', ''b''] [] [],
      ''a'' \<mapsto> new_task ''a'' ''not_started'' [] [] [],
      ''b'' \<mapsto> new_task ''b'' ''not_started'' [''b1'', ''b2''] [] [],
      ''b1'' \<mapsto> new_task ''b1'' ''not_started'' [] [] [],
      ''b2'' \<mapsto> new_task ''b2'' ''not_started'' [] [] []]"

text \<open>
  A chain of nested tasks, as the parser builds it from the ids \<open>1\<close>, \<open>1.1\<close>,
  \<open>1.1.1\<close> and so on: \<open>chain_id k\<close> is the id \<open>1\<close> followed by \<open>k\<close> components
  \<open>.1\<close>.  In \<open>chain_map n\<close> each of the tasks \<open>chain_id 0\<close>, ..., \<open>chain_id (n - 1)\<close>
  has the next one as its only subtask, and \<open>chain_id n\<close> has no subtask.
\<close>

definition chain_id :: "nat \<Rightarrow> string" where
  "chain_id k = ''1'' @ concat (replicate k ''.1'')"

definition chain_map :: "nat \<Rightarrow> (string \<rightharpoonup> task)" where
  "chain_map n =
     map_of (map (\<lambda>k. (chain_id k,
                        new_task (chain_id k) ''not_started''
                          (if k < n then [chain_id (Suc k)] else []) [] []))
              [0..<Suc n])"

section \<open>The live orchestration state\<close>

text \<open>
  A review finding as \<open>add_review_findings\<close> of \<open>dispatch_reviews.py\<close> writes it; the
  keys read with \<open>.get\<close> and a default are options.
\<close>

record review_finding =
  rf_task_id :: "string option"
  rf_reviewer :: string
  rf_severity :: "string option"
  rf_summary :: string
  rf_details :: string
  rf_created_at :: string

text \<open>An entry of a task's \<open>review_history\<close>, appended by \<open>enter_fix_loop\<close>.\<close>

record review_entry =
  re_attempt :: int
  re_severity :: string
  re_findings :: "review_finding list"
  re_reviewed_at :: string

text \<open>A task of the state also carries the fields the fix loop and the consolidation write.\<close>

record state_task = task +
  last_review_severity :: "string option"
  review_history :: "review_entry list"
  blocked_reason :: "string option"
  blocked_by :: "string option"
  completed_at :: "string option"

record blocked_item =
  bi_task_id :: string
  bi_blocking_reason :: string
  bi_dependent_tasks :: "string list"
  bi_created_at :: string

text \<open>JSON values, for the objects the state keeps as plain dicts.\<close>

datatype jval = JNull | JInt int | JStr string | JList "jval list" | JObj "(string \<times> jval) list"

type_synonym jdict = "(string \<times> jval) list"

text \<open>
  The state dict.  \<open>final_reports\<close> and \<open>blocked_items\<close> are read with
  \<open>state.get(key, [])\<close> and extended through \<open>setdefault(key, [])\<close>, so an absent key
  and an empty list behave alike and both are the empty list here.
\<close>

record agent_state =
  st_tasks :: "state_task list"
  st_review_findings :: "review_finding list"
  st_final_reports :: "jdict list"
  st_blocked_items :: "blocked_item list"

text \<open>
  A function that can end in an uncaught exception returns the state as the exception
  leaves it, and \<open>Raised\<close>.  The one exception modelled is the \<open>RecursionError\<close> of
  \<open>expand_dependencies\<close>.
\<close>

datatype 'a outcome = Returned 'a | Raised

section \<open>Fix loop entry: \<open>fix_loop.py\<close>\<close>

text \<open>
  \<open>task_map\<close> of \<open>get_all_dependent_task_ids\<close>: the tasks with a truthy (non-empty)
  id, a later task replacing an earlier one of the same id.
\<close>

definition dependents_task_map :: "state_task list \<Rightarrow> (string \<rightharpoonup> state_task)" where
  "dependents_task_map ts = map_of (rev (map (\<lambda>t. (task_id t, t)) (filter (\<lambda>t. task_id t \<noteq> []) ts)))"

text \<open>
  The expanded dependencies of every task, in task order; \<open>reverse_deps[dep]\<close> is then
  the set of the ids of the tasks whose expanded dependencies hold \<open>dep\<close>.  Python
  iterates that set in no specified order; the model lists it in task order.
\<close>

definition expanded_deps_of ::
  "nat \<Rightarrow> state_task list \<Rightarrow> (string \<times> string list) list option" where
  "expanded_deps_of depth ts =
     those (map (\<lambda>t. map_option (\<lambda>e. (task_id t, e))
                        (expand_dependencies depth (dependencies t) (dependents_task_map ts))) ts)"

definition reverse_deps :: "(string \<times> string list) list \<Rightarrow> string \<Rightarrow> string list" where
  "reverse_deps expanded dep = remdups (map fst (filter (\<lambda>p. dep \<in> set (snd p)) expanded))"

text \<open>
  The breadth-first loop.  \<open>visited\<close> is a Python set; the model keeps its elements
  in the order they were added.
\<close>

definition bfs_nodes :: "(string \<times> string list) list \<Rightarrow> string list \<Rightarrow> string set" where
  "bfs_nodes expanded queue = set queue \<union> set (map fst expanded)"

function dependents_bfs ::
  "(string \<times> string list) list \<Rightarrow> string list \<Rightarrow> string list \<Rightarrow> string list" where
  "dependents_bfs expanded [] visited = visited"
| "dependents_bfs expanded (current # queue) visited =
     (if current \<in> set visited then dependents_bfs expanded queue visited
      else dependents_bfs expanded
             (queue @ filter (\<lambda>d. d \<notin> set (visited @ [current])) (reverse_deps expanded current))
             (visited @ [current]))"
  by pat_completeness auto
termination
proof (relation "measures [\<lambda>(e, q, v). card (bfs_nodes e q - set v), \<lambda>(e, q, v). length q]")
  show "wf (measures [\<lambda>(e, q, v). card (bfs_nodes e q - set v), \<lambda>(e, q, v). length q])"
    by simp
next
  fix expanded :: "(string \<times> string list) list" and current :: string
    and queue visited :: "string list"
  assume "current \<in> set visited"
  have "bfs_nodes expanded queue - set visited \<subseteq> bfs_nodes expanded (current # queue) - set visited"
    by (auto simp: bfs_nodes_def)
  then have "card (bfs_nodes expanded queue - set visited)
      \<le> card (bfs_nodes expanded (current # queue) - set visited)"
    by (intro card_mono) (simp_all add: bfs_nodes_def)
  then show "((expanded, queue, visited), (expanded, current # queue, visited))
      \<in> measures [\<lambda>(e, q, v). card (bfs_nodes e q - set v), \<lambda>(e, q, v). length q]"
    by auto
next
  fix expanded :: "(string \<times> string list) list" and current :: string
    and queue visited :: "string list"
  assume nv: "current \<notin> set visited"
  let ?q = "queue @ filter (\<lambda>d. d \<notin> set (visited @ [current])) (reverse_deps expanded current)"
  have "set (reverse_deps expanded current) \<subseteq> set (map fst expanded)"
    by (auto simp: reverse_deps_def)
  then have "bfs_nodes expanded ?q - set (visited @ [current])
      \<subset> bfs_nodes expanded (current # queue) - set visited"
    using nv by (auto simp: bfs_nodes_def)
  then have "card (bfs_nodes expanded ?q - set (visited @ [current]))
      < card (bfs_nodes expanded (current # queue) - set visited)"
    by (intro psubset_card_mono) (simp_all add: bfs_nodes_def)
  then show "((expanded, ?q, visited @ [current]), (expanded, current # queue, visited))
      \<in> measures [\<lambda>(e, q, v). card (bfs_nodes e q - set v), \<lambda>(e, q, v). length q]"
    by auto
qed

text \<open>
  \<open>get_all_dependent_task_ids\<close>; \<open>None\<close> is the \<open>RecursionError\<close> of
  \<open>expand_dependencies\<close>.  The search starts from the task and, when the first task
  with that id has a truthy \<open>parent_id\<close>, from its parent; both are discarded from
  the result.
\<close>

definition get_all_dependent_task_ids :: "nat \<Rightarrow> state_task list \<Rightarrow> string \<Rightarrow> string list option" where
  "get_all_dependent_task_ids depth ts tid =
     (case expanded_deps_of depth ts of
        None \<Rightarrow> None
      | Some expanded \<Rightarrow>
          (let parent = (case find (\<lambda>t. task_id t = tid) ts of
                           None \<Rightarrow> []
                         | Some t \<Rightarrow> (case parent_id t of None \<Rightarrow> [] | Some p \<Rightarrow> if p \<noteq> [] then [p] else []));
               visited = dependents_bfs expanded (tid # parent) []
           in Some (filter (\<lambda>v. v \<noteq> tid \<and> v \<notin> set parent) visited)))"

definition block_dependent_tasks ::
  "nat \<Rightarrow> string \<Rightarrow> agent_state \<Rightarrow> string \<Rightarrow> string \<Rightarrow> agent_state \<times> unit outcome" where
  "block_dependent_tasks depth now st tid reason =
     (case get_all_dependent_task_ids depth (st_tasks st) tid of
        None \<Rightarrow> (st, Raised)
      | Some dependent_ids \<Rightarrow>
          (st\<lparr>st_tasks :=
                map (\<lambda>t. if task_id t \<in> set dependent_ids
                              \<and> status t \<noteq> Some ''completed'' \<and> status t \<noteq> Some ''blocked''
                          then t\<lparr>status := Some ''blocked'', blocked_reason := Some reason,
                                 blocked_by := Some tid\<rparr>
                          else t) (st_tasks st),
              st_blocked_items := st_blocked_items st @
                [\<lparr>bi_task_id = tid, bi_blocking_reason = reason,
                  bi_dependent_tasks = dependent_ids, bi_created_at = now\<rparr>]\<rparr>,
           Returned ()))"

text \<open>
  \<open>enter_fix_loop\<close>.  \<open>clock\<close> gives the successive readings of
  \<open>datetime.now(timezone.utc).isoformat()\<close> during one consolidation: reading 0 stamps
  the final report, reading 1 the review history entry or the completion, reading 2
  the blocked item.
\<close>

definition overall_of_findings :: "review_finding list \<Rightarrow> string" where
  "overall_of_findings review_findings =
     (let severities = map (\<lambda>f. case rf_severity f of None \<Rightarrow> ''minor'' | Some s \<Rightarrow> s) review_findings
      in if ''critical'' \<in> set severities then ''critical''
         else if ''major'' \<in> set severities then ''major''
         else ''minor'')"

definition enter_fix_loop ::
  "nat \<Rightarrow> (nat \<Rightarrow> string) \<Rightarrow> agent_state \<Rightarrow> string \<Rightarrow> review_finding list
     \<Rightarrow> agent_state \<times> unit outcome" where
  "enter_fix_loop depth clock st tid review_findings =
     (case find (\<lambda>i. task_id (st_tasks st ! i) = tid) [0..<length (st_tasks st)] of
        None \<Rightarrow> (st, Returned ())
      | Some i \<Rightarrow>
          (let t = st_tasks st ! i;
               overall_severity = overall_of_findings review_findings;
               t' = t\<lparr>status := Some ''fix_required'',
                       last_review_severity := Some overall_severity,
                       review_history := review_history t @
                         [\<lparr>re_attempt = completed_attempts_of t, re_severity = overall_severity,
                           re_findings = review_findings, re_reviewed_at = clock 1\<rparr>]\<rparr>
           in block_dependent_tasks depth (clock 2) (st\<lparr>st_tasks := (st_tasks st)[i := t']\<rparr>) tid
                (''Upstream task '' @ tid @ '' requires fixes ('' @ overall_severity @ '')'')))"

section \<open>Review consolidation: \<open>consolidate_reviews.py\<close>\<close>

definition SEVERITY_ORDER :: "string list" where
  "SEVERITY_ORDER = [''critical'', ''major'', ''minor'', ''none'']"

record FinalReport =
  fr_task_id :: string
  fr_overall_severity :: string
  fr_summary :: string
  fr_finding_count :: nat
  fr_findings :: "review_finding list"
  fr_created_at :: string

text \<open>\<open>FinalReport.to_dict\<close>: the dict literal, key by key.\<close>

definition FinalReport_to_dict :: "FinalReport \<Rightarrow> jdict" where
  "FinalReport_to_dict r =
     [(''task_id'', JStr (fr_task_id r)),
      (''overall_severity'', JStr (fr_overall_severity r)),
      (''summary'', JStr (fr_summary r)),
      (''finding_count'', JInt (int (fr_finding_count r))),
      (''created_at'', JStr (fr_created_at r))]"

definition get_review_findings_for_task :: "agent_state \<Rightarrow> string \<Rightarrow> review_finding list" where
  "get_review_findings_for_task st tid = filter (\<lambda>f. rf_task_id f = Some tid) (st_review_findings st)"

definition severity_or_none :: "review_finding \<Rightarrow> string" where
  "severity_or_none f = (case rf_severity f of None \<Rightarrow> ''none'' | Some s \<Rightarrow> s)"

definition determine_overall_severity :: "review_finding list \<Rightarrow> string" where
  "determine_overall_severity fs =
     (if fs = [] then ''none''
      else (case find (\<lambda>sev. sev \<in> set (map severity_or_none fs)) SEVERITY_ORDER of
              Some sev \<Rightarrow> sev
            | None \<Rightarrow> ''none''))"

text \<open>\<open>sep.join(parts)\<close>\<close>

fun join :: "string \<Rightarrow> string list \<Rightarrow> string" where
  "join sep [] = []"
| "join sep [p] = p"
| "join sep (p # q # ps) = p @ sep @ join sep (q # ps)"

definition generate_summary :: "review_finding list \<Rightarrow> string \<Rightarrow> string" where
  "generate_summary fs tid =
     (if fs = [] then ''No review findings for task '' @ tid
      else
        (let parts = concat (map (\<lambda>sev.
                       let count = length (filter (\<lambda>f. severity_or_none f = sev) fs)
                       in if count > 0 then [string_of_nat count @ '' '' @ sev] else [])
                     SEVERITY_ORDER);
             overall = determine_overall_severity fs;
             n = string_of_nat (length fs)
         in if overall = ''none'' then
              ''Task '' @ tid @ '': All '' @ n @ '' review(s) passed with no issues''
            else if overall = ''minor'' then
              ''Task '' @ tid @ '': '' @ n @ '' review(s) completed with minor issues (''
                @ join '', '' parts @ '')''
            else if overall = ''major'' then
              ''Task '' @ tid @ '': '' @ n @ '' review(s) found major issues ('' @ join '', '' parts @ '')''
            else
              ''Task '' @ tid @ '': CRITICAL issues found in '' @ n @ '' review(s) (''
                @ join '', '' parts @ '')''))"

text \<open>
  \<open>consolidate_findings\<close>; \<open>now\<close> is the clock reading \<open>__post_init__\<close> stores,
  since no \<open>created_at\<close> is passed.
\<close>

definition consolidate_findings :: "string \<Rightarrow> agent_state \<Rightarrow> string \<Rightarrow> FinalReport option" where
  "consolidate_findings now st tid =
     (let fs = get_review_findings_for_task st tid in
      if fs = [] then None
      else Some \<lparr>fr_task_id = tid,
                  fr_overall_severity = determine_overall_severity fs,
                  fr_summary = generate_summary fs tid,
                  fr_finding_count = length fs,
                  fr_findings = fs,
                  fr_created_at = now\<rparr>)"

text \<open>\<open>report.get("task_id") == task_id\<close> for some report of the list.\<close>

definition has_existing_final_report :: "agent_state \<Rightarrow> string \<Rightarrow> bool" where
  "has_existing_final_report st tid =
     list_ex (\<lambda>report. map_of report ''task_id'' = Some (JStr tid)) (st_final_reports st)"

definition add_final_report :: "agent_state \<Rightarrow> FinalReport \<Rightarrow> agent_state" where
  "add_final_report st report = st\<lparr>st_final_reports := st_final_reports st @ [FinalReport_to_dict report]\<rparr>"

text \<open>
  \<open>update_task_to_completed\<close>: the task the dict comprehension keeps for the id (the
  last one), then each of its subtasks that the map knows.
\<close>

definition mark_completed :: "string \<Rightarrow> nat \<Rightarrow> state_task list \<Rightarrow> state_task list" where
  "mark_completed now i ts = ts[i := (ts ! i)\<lparr>status := Some ''completed'', completed_at := Some now\<rparr>]"

definition update_task_to_completed :: "string \<Rightarrow> agent_state \<Rightarrow> string \<Rightarrow> agent_state" where
  "update_task_to_completed now st tid =
     (let ts = st_tasks st; task_map = task_index_map ts in
      case task_map tid of
        None \<Rightarrow> st
      | Some i \<Rightarrow>
          st\<lparr>st_tasks :=
               fold (\<lambda>sid acc. case task_map sid of Some j \<Rightarrow> mark_completed now j acc | None \<Rightarrow> acc)
                 (subtasks (ts ! i)) (mark_completed now i ts)\<rparr>)"

definition consolidate_single_task ::
  "nat \<Rightarrow> (nat \<Rightarrow> string) \<Rightarrow> agent_state \<Rightarrow> string \<Rightarrow> bool
     \<Rightarrow> agent_state \<times> FinalReport option outcome" where
  "consolidate_single_task depth clock st tid auto_complete =
     (if has_existing_final_report st tid then (st, Returned None)
      else (case consolidate_findings (clock 0) st tid of
              None \<Rightarrow> (st, Returned None)
            | Some report \<Rightarrow>
                (let st1 = add_final_report st report in
                 if should_enter_fix_loop (fr_overall_severity report) then
                   (case enter_fix_loop depth clock st1 tid (fr_findings report) of
                      (st2, Raised) \<Rightarrow> (st2, Raised)
                    | (st2, Returned u) \<Rightarrow> (st2, Returned (Some report)))
                 else if auto_complete then
                   (update_task_to_completed (clock 1) st1 tid, Returned (Some report))
                 else (st1, Returned (Some report)))))"

text \<open>The number of final reports the state holds for a task id.\<close>

definition reports_for :: "agent_state \<Rightarrow> string \<Rightarrow> nat" where
  "reports_for st tid = length (filter (\<lambda>report. map_of report ''task_id'' = Some (JStr tid)) (st_final_reports st))"

text \<open>
  A state with the single task 1 in final review and one minor finding for it.
\<close>

definition reviewed_example :: agent_state where
  "reviewed_example =
     \<lparr>st_tasks =
        [\<lparr>task_id = ''1'', status = Some ''final_review'', dependencies = [], subtasks = [],
          parent_id = None, writes = [], reads = [], fix_attempts = Some 0,
          last_review_severity = None, review_history = [], blocked_reason = None,
          blocked_by = None, completed_at = None\<rparr>],
      st_review_findings =
        [\<lparr>rf_task_id = Some ''1'', rf_reviewer = ''review-1-0'', rf_severity = Some ''minor'',
          rf_summary = ''naming'', rf_details = [], rf_created_at = ''t0''\<rparr>],
      st_final_reports = [],
      st_blocked_items = []\<rparr>"

section \<open>Regular expressions, as Python's \<open>re\<close> matches them\<close>

text \<open>
  The constructs the parser's patterns use.  \<open>Cls\<close> is a character class (a literal
  character is the class of that character), \<open>Grp n\<close> the capturing group number \<open>n\<close>,
  \<open>Eol\<close> the anchor \<open>$\<close>.  \<open>Opt\<close>, \<open>Star\<close> and \<open>Plus\<close> are the greedy \<open>?\<close>, \<open>*\<close> and
  \<open>+\<close>.
\<close>

datatype rx =
    Cls "char \<Rightarrow> bool"
  | Seq rx rx
  | Opt rx
  | Star rx
  | Plus rx
  | Grp nat rx
  | Eol

type_synonym captures = "nat \<Rightarrow> string option"

text \<open>
  A backtracking matcher: \<open>rx_match r caps s\<close> lists, in the order in which Python's
  engine tries them, the ways \<open>r\<close> can match a prefix of \<open>s\<close>, each as the captures so
  far and the rest of the string.  A greedy repetition tries one more iteration before
  it tries to stop, and an iteration has to consume a character, so the length of the
  string bounds the number of iterations.
\<close>

fun star_iter ::
  "(captures \<Rightarrow> string \<Rightarrow> (captures \<times> string) list) \<Rightarrow> nat \<Rightarrow> captures \<Rightarrow> string
     \<Rightarrow> (captures \<times> string) list" where
  "star_iter f 0 caps s = [(caps, s)]"
| "star_iter f (Suc n) caps s =
     concat (map (\<lambda>(caps', r). if length r < length s then star_iter f n caps' r else []) (f caps s))
     @ [(caps, s)]"

primrec rx_match :: "rx \<Rightarrow> captures \<Rightarrow> string \<Rightarrow> (captures \<times> string) list" where
  "rx_match (Cls P) caps s = (case s of [] \<Rightarrow> [] | x # xs \<Rightarrow> if P x then [(caps, xs)] else [])"
| "rx_match (Seq a b) caps s = concat (map (\<lambda>(caps', r). rx_match b caps' r) (rx_match a caps s))"
| "rx_match (Opt a) caps s = rx_match a caps s @ [(caps, s)]"
| "rx_match (Star a) caps s = star_iter (rx_match a) (length s) caps s"
| "rx_match (Plus a) caps s =
     concat (map (\<lambda>(caps', r). star_iter (rx_match a) (length r) caps' r) (rx_match a caps s))"
| "rx_match (Grp n a) caps s =
     map (\<lambda>(caps', r). (caps'(n \<mapsto> take (length s - length r) s), r)) (rx_match a caps s)"
| "rx_match Eol caps s = (if s = [] \<or> s = [CHR 0x0A] then [(caps, s)] else [])"

text \<open>
  \<open>re.match(pattern, s)\<close>: the first way the pattern matches at the start of \<open>s\<close>, as
  its captures; \<open>None\<close> when there is none.  A leading \<open>^\<close> adds nothing to \<open>re.match\<close>
  and is left out of the patterns.
\<close>

definition re_match :: "rx \<Rightarrow> string \<Rightarrow> captures option" where
  "re_match r s = (case rx_match r (\<lambda>n. None) s of [] \<Rightarrow> None | (caps, rest) # alternatives \<Rightarrow> Some caps)"

text \<open>A pattern written as a sequence of parts.\<close>

fun seqs :: "rx \<Rightarrow> rx list \<Rightarrow> rx" where
  "seqs r [] = r"
| "seqs r (q # rs) = Seq r (seqs q rs)"

definition lit :: "char \<Rightarrow> rx" where
  "lit c = Cls (\<lambda>x. x = c)"

section \<open>The task parser: multi-agent \<open>spec_parser.py\<close>\<close>

datatype TaskStatus =
  NOT_STARTED | IN_PROGRESS | PENDING_REVIEW | UNDER_REVIEW | FIX_REQUIRED | FINAL_REVIEW
  | COMPLETED | BLOCKED

text \<open>
  The \<open>Task\<close> dataclass, with the fields the parser sets; the other fields keep their
  defaults.
\<close>

record parsed_task =
  pt_task_id :: string
  pt_description :: string
  pt_status :: TaskStatus
  pt_is_optional :: bool
  pt_parent_id :: "string option"
  pt_subtasks :: "string list"
  pt_details :: "string list"
  pt_writes :: "string list"
  pt_reads :: "string list"

record ParseError =
  pe_file :: string
  pe_line :: nat
  pe_message :: string

definition STATUS_MARKERS :: "(string \<times> TaskStatus) list" where
  "STATUS_MARKERS =
     [(''[ ]'', NOT_STARTED), (''[x]'', COMPLETED), (''[X]'', COMPLETED),
      (''[-]'', IN_PROGRESS), (''[~]'', BLOCKED)]"

text \<open>The classes \<open>[-*]\<close>, \<open>[xX\s~-]\<close> and \<open>.\<close> (any character but a newline).\<close>

definition list_marker :: "char \<Rightarrow> bool" where
  "list_marker c = (c = CHR ''-'' \<or> c = CHR ''*'')"

definition checkbox_char :: "char \<Rightarrow> bool" where
  "checkbox_char c = (c = CHR ''x'' \<or> c = CHR ''X'' \<or> is_space c \<or> c = CHR ''~'' \<or> c = CHR ''-'')"

definition not_newline :: "char \<Rightarrow> bool" where
  "not_newline c = (c \<noteq> CHR 0x0A)"

text \<open>
  The pattern of \<open>_parse_task_line\<close>,
  \<^verbatim>\<open>^[-*]\s*\[([xX\s~-])\](\*)?\s*(\d+(?:\.\d+)*)(?:\.)?\s+(.+)$\<close>,
  and the pattern \<open>parse_tasks\<close> tests a line with first,
  \<^verbatim>\<open>^[-*]\s*\[[xX\s~-]\]\<close>.
\<close>

definition task_line_pattern :: rx where
  "task_line_pattern =
     seqs (Cls list_marker) [Star (Cls is_space), lit CHR ''['', Grp 1 (Cls checkbox_char), lit CHR '']'',
           Opt (Grp 2 (lit CHR ''*'')), Star (Cls is_space),
           Grp 3 (Seq (Plus (Cls is_digit)) (Star (Seq (lit CHR ''.'') (Plus (Cls is_digit))))),
           Opt (lit CHR ''.''), Plus (Cls is_space), Grp 4 (Plus (Cls not_newline)), Eol]"

definition checkbox_prefix_pattern :: rx where
  "checkbox_prefix_pattern =
     seqs (Cls list_marker) [Star (Cls is_space), lit CHR ''['', Cls checkbox_char, lit CHR '']'']"

text \<open>\<open>match.group(n)\<close> of a group that took part in the match.\<close>

definition group :: "captures \<Rightarrow> nat \<Rightarrow> string" where
  "group caps n = (case caps n of None \<Rightarrow> [] | Some g \<Rightarrow> g)"

definition rstrip_char :: "char \<Rightarrow> string \<Rightarrow> string" where
  "rstrip_char c s = rev (dropWhile (\<lambda>x. x = c) (rev s))"

definition parse_task_line :: "string \<Rightarrow> string option \<times> TaskStatus \<times> bool \<times> string" where
  "parse_task_line line =
     (case re_match task_line_pattern (strip line) of
        None \<Rightarrow> (None, NOT_STARTED, False, [])
      | Some m \<Rightarrow>
          (let status_char = group m 1;
               is_optional = (m 2 = Some ''*'');
               tid = rstrip_char CHR ''.'' (group m 3);
               description = strip (group m 4);
               status_key = ''['' @ status_char @ '']'';
               status = (case map_of STATUS_MARKERS status_key of None \<Rightarrow> NOT_STARTED | Some st \<Rightarrow> st)
           in (Some tid, status, is_optional, description)))"

text \<open>\<open>s.split(sep)\<close> for a one-character separator, and \<open>s.lower()\<close>.\<close>

fun split_on :: "char \<Rightarrow> string \<Rightarrow> string list" where
  "split_on sep [] = [[]]"
| "split_on sep (c # cs) =
     (if c = sep then [] # split_on sep cs
      else (case split_on sep cs of p # ps \<Rightarrow> (c # p) # ps | [] \<Rightarrow> [[c]]))"

definition lower_char :: "char \<Rightarrow> char" where
  "lower_char c =
     (let n = (of_char c :: nat) in
      if (65 \<le> n \<and> n \<le> 90) \<or> (192 \<le> n \<and> n \<le> 222 \<and> n \<noteq> 215) then char_of (n + 32) else c)"

definition lower :: "string \<Rightarrow> string" where
  "lower s = map lower_char s"

text \<open>\<open>_extract_file_manifest\<close>: the loop over the details, then the de-duplication.\<close>

definition manifest_files :: "nat \<Rightarrow> string \<Rightarrow> string list" where
  "manifest_files marker_length detail_stripped =
     (let files_str = strip (drop marker_length detail_stripped) in
      if files_str \<noteq> [] then filter (\<lambda>f. f \<noteq> []) (map strip (split_on CHR '','' files_str)) else [])"

definition manifest_step :: "string \<Rightarrow> string list \<times> string list \<Rightarrow> string list \<times> string list" where
  "manifest_step detail acc =
     (let detail_stripped = strip detail in
      if starts_with (lower detail_stripped) ''_writes:'' then
        (fst acc @ manifest_files 8 detail_stripped, snd acc)
      else if starts_with (lower detail_stripped) ''_reads:'' then
        (fst acc, snd acc @ manifest_files 7 detail_stripped)
      else acc)"

definition extract_file_manifest :: "string list \<Rightarrow> string list \<times> string list" where
  "extract_file_manifest details =
     (let acc = fold manifest_step details ([], [])
      in (dict_fromkeys (fst acc), dict_fromkeys (snd acc)))"

text \<open>
  \<open>parse_tasks\<close> keeps \<open>Task\<close> objects and mutates them after they are in the list, so
  the model has a store: \<open>ps_heap\<close> holds the objects in the order of their creation,
  and a reference is a position in it.  \<open>ps_tasks\<close> is the list \<open>tasks\<close>, of
  references.
\<close>

record parse_state =
  ps_heap :: "parsed_task list"
  ps_tasks :: "nat list"
  ps_errors :: "ParseError list"
  ps_current_task :: "nat option"
  ps_current_details :: "string list"
  ps_line_num :: nat

text \<open>
  Saving the task \<open>current_task\<close> refers to: its details and file manifest are
  assigned and the reference is appended to \<open>tasks\<close>.
\<close>

definition save_task :: "nat \<Rightarrow> parse_state \<Rightarrow> parse_state" where
  "save_task ref st =
     (let manifest = extract_file_manifest (ps_current_details st) in
      st\<lparr>ps_heap := (ps_heap st)[ref := (ps_heap st ! ref)
              \<lparr>pt_details := ps_current_details st, pt_writes := fst manifest,
               pt_reads := snd manifest\<rparr>],
         ps_tasks := ps_tasks st @ [ref]\<rparr>)"

text \<open>\<open>task_id.rsplit('.', 1)[0]\<close> for an id with a dot: what stands before the last dot.\<close>

definition before_last_dot :: "string \<Rightarrow> string" where
  "before_last_dot s = rev (drop 1 (dropWhile (\<lambda>c. c \<noteq> CHR ''.'') (rev s)))"

definition new_parsed_task :: "string \<Rightarrow> string \<Rightarrow> TaskStatus \<Rightarrow> bool \<Rightarrow> parsed_task" where
  "new_parsed_task tid description st is_optional =
     \<lparr>pt_task_id = tid, pt_description = description, pt_status = st,
      pt_is_optional = is_optional,
      pt_parent_id = (if CHR ''.'' \<in> set tid then Some (before_last_dot tid) else None),
      pt_subtasks = [], pt_details = [], pt_writes = [], pt_reads = []\<rparr>"

text \<open>The body of the loop of pass 1, for one line.\<close>

definition parse_line :: "string \<Rightarrow> parse_state \<Rightarrow> parse_state" where
  "parse_line line st0 =
     (let st = st0\<lparr>ps_line_num := ps_line_num st0 + 1\<rparr>;
          stripped = strip line in
      if stripped = [] \<or> starts_with stripped ''#'' then st
      else if re_match checkbox_prefix_pattern stripped \<noteq> None then
        (let st1 = (case ps_current_task st of
                      Some ref \<Rightarrow> (save_task ref st)\<lparr>ps_current_details := []\<rparr>
                    | None \<Rightarrow> st)
         in case parse_task_line stripped of
              (None, st', is_optional, description) \<Rightarrow>
                st1\<lparr>ps_errors := ps_errors st1 @
                      [\<lparr>pe_file = ''tasks.md'', pe_line = ps_line_num st1,
                        pe_message = ''Invalid task format: '' @ stripped\<rparr>]\<rparr>
            | (Some tid, st', is_optional, description) \<Rightarrow>
                st1\<lparr>ps_heap := ps_heap st1 @ [new_parsed_task tid description st' is_optional],
                    ps_current_task := Some (length (ps_heap st1))\<rparr>)
      else if ps_current_task st \<noteq> None \<and> starts_with stripped ''-'' then
        st\<lparr>ps_current_details := ps_current_details st @ [strip (drop 1 stripped)]\<rparr>
      else if ps_current_task st \<noteq> None then
        st\<lparr>ps_current_details := ps_current_details st @ [stripped]\<rparr>
      else st)"

text \<open>
  \<open>_build_parent_subtask_relationships\<close>: \<open>task_map\<close> maps an id to the object of the
  last list entry with that id; every entry's \<open>subtasks\<close> is cleared, then every entry
  with a truthy \<open>parent_id\<close> appends its id to its parent's \<open>subtasks\<close>.
\<close>

definition build_parent_subtask_relationships :: "nat list \<Rightarrow> parsed_task list \<Rightarrow> parsed_task list" where
  "build_parent_subtask_relationships task_refs heap =
     (let task_map = map_of (rev (map (\<lambda>ref. (pt_task_id (heap ! ref), ref)) task_refs));
          cleared = fold (\<lambda>ref h. h[ref := (h ! ref)\<lparr>pt_subtasks := []\<rparr>]) task_refs heap
      in fold (\<lambda>ref h.
           case pt_parent_id (h ! ref) of
             None \<Rightarrow> h
           | Some p \<Rightarrow>
               if p = [] then h
               else (case task_map p of
                       None \<Rightarrow> h
                     | Some pref \<Rightarrow>
                         h[pref := (h ! pref)\<lparr>pt_subtasks := pt_subtasks (h ! pref) @ [pt_task_id (h ! ref)]\<rparr>]))
           task_refs cleared)"

record TasksParseResult =
  pr_success :: bool
  pr_tasks :: "nat list"
  pr_heap :: "parsed_task list"
  pr_errors :: "ParseError list"

definition parse_tasks :: "string \<Rightarrow> TasksParseResult" where
  "parse_tasks content =
     (let st = fold parse_line (split_on CHR 0x0A content)
                 \<lparr>ps_heap = [], ps_tasks = [], ps_errors = [], ps_current_task = None,
                  ps_current_details = [], ps_line_num = 0\<rparr>;
          st' = (case ps_current_task st of Some ref \<Rightarrow> save_task ref st | None \<Rightarrow> st)
      in \<lparr>pr_success = (ps_errors st' = []),
          pr_tasks = ps_tasks st',
          pr_heap = build_parent_subtask_relationships (ps_tasks st') (ps_heap st'),
          pr_errors = ps_errors st'\<rparr>)"

text \<open>The returned list \<open>tasks\<close>, each reference replaced by the object it refers to.\<close>

definition result_tasks :: "TasksParseResult \<Rightarrow> parsed_task list" where
  "result_tasks r = map (\<lambda>ref. pr_heap r ! ref) (pr_tasks r)"

text \<open>A tasks.md of three lines, the second with a checkbox and no id.\<close>

definition three_lines :: string where
  "three_lines = ''- [ ] 1 First'' @ [CHR 0x0A] @ ''- [ ] later'' @ [CHR 0x0A] @ ''- [ ] 2 Second''"

subsection \<open>Auxiliary notions: the first alternative of a match\<close>







section \<open>Properties\<close>

subsection \<open>Fix loop actions\<close>

text \<open>
  Claim C1.  For every task record and every severity: a severity other than
  critical and major gives PASS; for critical or major, a \<open>fix_attempts\<close> of 0 or 1
  gives RETRY, of 2 gives ESCALATE, and of 3 or more gives HUMAN_FALLBACK.  A task
  without the key counts as 0 completed attempts, as \<open>task.get("fix_attempts", 0)\<close>
  reads it.
\<close>

theorem evaluate_fix_loop_action_table:
  "(severity \<noteq> ''critical'' \<and> severity \<noteq> ''major''
      \<longrightarrow> evaluate_fix_loop_action t severity = PASS)
   \<and> (severity = ''critical'' \<or> severity = ''major'' \<longrightarrow>
        ((fix_attempts t = Some 0 \<or> fix_attempts t = Some 1 \<or> fix_attempts t = None)
            \<longrightarrow> evaluate_fix_loop_action t severity = RETRY)
        \<and> (fix_attempts t = Some 2 \<longrightarrow> evaluate_fix_loop_action t severity = ESCALATE)
        \<and> (\<forall>n. 3 \<le> n \<and> fix_attempts t = Some n
            \<longrightarrow> evaluate_fix_loop_action t severity = HUMAN_FALLBACK))"
  by (auto simp: evaluate_fix_loop_action_def should_enter_fix_loop_def completed_attempts_of_def
      MAX_FIX_ATTEMPTS_def ESCALATION_THRESHOLD_def)

theorem evaluate_fix_loop_action_table_witness:
  "fix_attempts (new_task ''1'' ''under_review'' [] [] []) = Some 0
   \<and> evaluate_fix_loop_action (new_task ''1'' ''under_review'' [] [] []) ''minor'' = PASS
   \<and> evaluate_fix_loop_action (new_task ''1'' ''under_review'' [] [] []) ''major'' = RETRY
   \<and> evaluate_fix_loop_action ((new_task ''1'' ''under_review'' [] [] [])\<lparr>fix_attempts := Some 1\<rparr>)
         ''critical'' = RETRY
   \<and> evaluate_fix_loop_action ((new_task ''1'' ''under_review'' [] [] [])\<lparr>fix_attempts := Some 2\<rparr>)
         ''major'' = ESCALATE
   \<and> evaluate_fix_loop_action ((new_task ''1'' ''under_review'' [] [] [])\<lparr>fix_attempts := Some 3\<rparr>)
         ''major'' = HUMAN_FALLBACK
   \<and> evaluate_fix_loop_action ((new_task ''1'' ''under_review'' [] [] [])\<lparr>fix_attempts := Some 7\<rparr>)
         ''critical'' = HUMAN_FALLBACK"
  using evaluate_fix_loop_action_table [of "''minor''" "new_task ''1'' ''under_review'' [] [] []"]
    evaluate_fix_loop_action_table [of "''major''" "new_task ''1'' ''under_review'' [] [] []"]
    evaluate_fix_loop_action_table
      [of "''critical''" "(new_task ''1'' ''under_review'' [] [] [])\<lparr>fix_attempts := Some 1\<rparr>"]
    evaluate_fix_loop_action_table
      [of "''major''" "(new_task ''1'' ''under_review'' [] [] [])\<lparr>fix_attempts := Some 2\<rparr>"]
    evaluate_fix_loop_action_table
      [of "''major''" "(new_task ''1'' ''under_review'' [] [] [])\<lparr>fix_attempts := Some 3\<rparr>"]
    evaluate_fix_loop_action_table
      [of "''critical''" "(new_task ''1'' ''under_review'' [] [] [])\<lparr>fix_attempts := Some 7\<rparr>"]
  by (simp add: new_task_def)

subsection \<open>Conflict-free batches\<close>

lemma writes_disjoint_sym: "writes_disjoint a b = writes_disjoint b a"
  by (auto simp: writes_disjoint_def)

lemma conflict_free_append:
  "conflict_free (xs @ ys) =
     (conflict_free xs \<and> conflict_free ys \<and> (\<forall>x\<in>set xs. \<forall>y\<in>set ys. writes_disjoint x y))"
  by (induction xs) (auto simp: list_all_iff)

lemma conflict_free_lt:
  "conflict_free b \<Longrightarrow> i < j \<Longrightarrow> j < length b \<Longrightarrow> writes_disjoint (b ! i) (b ! j)"
proof (induction b arbitrary: i j)
  case Nil
  then show ?case by simp
next
  case (Cons t ts)
  from Cons.prems obtain j' where j: "j = Suc j'" "j' < length ts" by (cases j) simp_all
  show ?case
  proof (cases i)
    case 0
    from Cons.prems(1) have "list_all (writes_disjoint t) ts" by simp
    with j(2) have "writes_disjoint t (ts ! j')" by (simp only: list_all_length)
    with 0 j(1) show ?thesis by simp
  next
    case (Suc i')
    from Cons.prems(1) have cf: "conflict_free ts" by simp
    from Cons.prems(2) Suc j(1) have "i' < j'" by simp
    from Cons.IH[OF cf this j(2)] Suc j(1) show ?thesis by simp
  qed
qed

lemma conflict_free_nth:
  assumes "conflict_free b" "i < length b" "j < length b" "i \<noteq> j"
  shows "set (writes (b ! i)) \<inter> set (writes (b ! j)) = {}"
proof (cases "i < j")
  case True
  from conflict_free_lt[OF assms(1) True assms(3)] show ?thesis
    by (simp only: writes_disjoint_def)
next
  case False
  with assms(4) have "j < i" by simp
  from conflict_free_lt[OF assms(1) this assms(2)] show ?thesis
    by (simp only: writes_disjoint_def Int_commute)
qed

lemma conflict_free_no_writes:
  "list_all (\<lambda>t. writes t = []) ro \<Longrightarrow> conflict_free ro"
  by (induction ro) (auto simp: list_all_iff writes_disjoint_def)

lemma shared_writes_empty: "(shared_writes a b = []) = writes_disjoint a b"
  by (auto simp: shared_writes_def writes_disjoint_def filter_empty_conv)

lemma detect_pairs_later:
  assumes "b \<in> set rest" "\<not> writes_disjoint a b"
  shows "(task_id a, task_id b) \<in> conflict_pairs_of (detect_file_conflicts (a # rest))"
proof -
  let ?c = "\<lparr>task_a = task_id a, task_b = task_id b,
             files = shared_writes a b, conflict_type = ''write-write''\<rparr>"
  from assms(2) have ne: "shared_writes a b \<noteq> []"
    using shared_writes_empty[of a b] by simp
  with assms(1) have "?c \<in> set (detect_file_conflicts (a # rest))"
    by (simp only: detect_file_conflicts.simps set_append set_concat set_map) force
  then have "(task_a ?c, task_b ?c) \<in> conflict_pairs_of (detect_file_conflicts (a # rest))"
    unfolding conflict_pairs_of_def set_map by blast
  then show ?thesis by simp
qed

lemma conflict_pairs_of_append:
  "conflict_pairs_of (xs @ ys) = conflict_pairs_of xs \<union> conflict_pairs_of ys"
  by (auto simp: conflict_pairs_of_def)

lemma conflict_pairs_sym: "(x, y) \<in> conflict_pairs_of cs \<Longrightarrow> (y, x) \<in> conflict_pairs_of cs"
  by (auto simp: conflict_pairs_of_def)

lemma detect_pairs:
  "u \<in> set ws \<Longrightarrow> t \<in> set ws \<Longrightarrow> u \<noteq> t \<Longrightarrow> \<not> writes_disjoint u t
     \<Longrightarrow> (task_id t, task_id u) \<in> conflict_pairs_of (detect_file_conflicts ws)"
proof (induction ws)
  case Nil
  then show ?case by simp
next
  case (Cons a rest)
  show ?case
  proof (cases "u = a")
    case True
    with Cons.prems have "t \<in> set rest" by auto
    with Cons.prems True have "(task_id u, task_id t) \<in> conflict_pairs_of (detect_file_conflicts (a # rest))"
      using detect_pairs_later by blast
    then show ?thesis by (rule conflict_pairs_sym)
  next
    case False
    with Cons.prems have u: "u \<in> set rest" by auto
    show ?thesis
    proof (cases "t = a")
      case True
      from Cons.prems have "\<not> writes_disjoint t u" by (simp add: writes_disjoint_sym)
      with u True show ?thesis using detect_pairs_later by blast
    next
      case False
      with Cons.prems have "t \<in> set rest" by auto
      with u Cons.prems Cons.IH have "(task_id t, task_id u) \<in> conflict_pairs_of (detect_file_conflicts rest)"
        by blast
      then show ?thesis by (simp add: conflict_pairs_of_append)
    qed
  qed
qed

lemma place_in_batch_inv:
  assumes "place_in_batch (conflict_pairs_of (detect_file_conflicts ws)) t bs = Some bs'"
    and "\<forall>b\<in>set bs. conflict_free b \<and> set b \<subseteq> set ws \<and> task_id ` set b \<subseteq> A"
    and "t \<in> set ws" and "task_id t \<notin> A"
  shows "\<forall>b\<in>set bs'. conflict_free b \<and> set b \<subseteq> set ws \<and> task_id ` set b \<subseteq> insert (task_id t) A"
  using assms
proof (induction bs arbitrary: bs')
  case Nil
  then show ?case by simp
next
  case (Cons b bs)
  let ?pairs = "conflict_pairs_of (detect_file_conflicts ws)"
  from Cons.prems(2) have b: "conflict_free b" "set b \<subseteq> set ws" "task_id ` set b \<subseteq> A"
    and rest: "\<forall>b\<in>set bs. conflict_free b \<and> set b \<subseteq> set ws \<and> task_id ` set b \<subseteq> A"
    by simp_all
  show ?case
  proof (cases "list_ex (\<lambda>bid. (task_id t, bid) \<in> ?pairs) (map task_id b)")
    case False
    with Cons.prems(1) have bs': "bs' = (b @ [t]) # bs" by simp
    have "writes_disjoint u t" if u: "u \<in> set b" for u
    proof (rule ccontr)
      assume nd: "\<not> writes_disjoint u t"
      from u b(3) Cons.prems(4) have "u \<noteq> t" by auto
      from detect_pairs[OF _ Cons.prems(3) this nd] u b(2)
      have "(task_id t, task_id u) \<in> ?pairs" by auto
      with False u show False by (auto simp: list_ex_iff)
    qed
    then have "conflict_free (b @ [t])" using b(1) by (simp add: conflict_free_append)
    moreover have "set (b @ [t]) \<subseteq> set ws" using b(2) Cons.prems(3) by simp
    moreover have "task_id ` set (b @ [t]) \<subseteq> insert (task_id t) A" using b(3) by auto
    moreover have "\<forall>b\<in>set bs. conflict_free b \<and> set b \<subseteq> set ws \<and> task_id ` set b \<subseteq> insert (task_id t) A"
      using rest by blast
    ultimately show ?thesis unfolding bs' by simp
  next
    case True
    with Cons.prems(1) obtain bs2 where p: "place_in_batch ?pairs t bs = Some bs2" and bs': "bs' = b # bs2"
      by auto
    from Cons.IH[OF p rest Cons.prems(3,4)]
    have "\<forall>b\<in>set bs2. conflict_free b \<and> set b \<subseteq> set ws \<and> task_id ` set b \<subseteq> insert (task_id t) A" .
    moreover have "conflict_free b \<and> set b \<subseteq> set ws \<and> task_id ` set b \<subseteq> insert (task_id t) A"
      using b by blast
    ultimately show ?thesis unfolding bs' by simp
  qed
qed

lemma colour_step_inv:
  assumes "col_inv ws st" "t \<in> set ws"
  shows "col_inv ws (colour_step (conflict_pairs_of (detect_file_conflicts ws)) t st)"
proof -
  let ?pairs = "conflict_pairs_of (detect_file_conflicts ws)"
  obtain batches assigned where st: "st = (batches, assigned)" by (cases st)
  from assms(1) have inv: "\<forall>b\<in>set batches. conflict_free b \<and> set b \<subseteq> set ws \<and> task_id ` set b \<subseteq> assigned"
    by (simp add: col_inv_def st)
  show ?thesis
  proof (cases "task_id t \<in> assigned")
    case True
    then show ?thesis using assms(1) by (simp add: colour_step_def st)
  next
    case False
    show ?thesis
    proof (cases "place_in_batch ?pairs t batches")
      case None
      have "\<forall>b\<in>set (batches @ [[t]]). conflict_free b \<and> set b \<subseteq> set ws
              \<and> task_id ` set b \<subseteq> insert (task_id t) assigned"
        using inv assms(2) by auto
      with None False show ?thesis by (simp add: colour_step_def st col_inv_def)
    next
      case (Some bs')
      from place_in_batch_inv[OF Some inv assms(2) False] Some False
      show ?thesis by (simp add: colour_step_def st col_inv_def)
    qed
  qed
qed

lemma fold_colour_inv:
  "col_inv ws st \<Longrightarrow> set xs \<subseteq> set ws
     \<Longrightarrow> col_inv ws (fold (colour_step (conflict_pairs_of (detect_file_conflicts ws))) xs st)"
  by (induction xs arbitrary: st) (simp_all add: colour_step_inv)

lemma coloured_batches:
  assumes "b \<in> set (fst (fold (colour_step (conflict_pairs_of (detect_file_conflicts ws))) ws ([], {})))"
  shows "conflict_free b \<and> set b \<subseteq> set ws"
proof -
  have "col_inv ws ([], {})" by (simp add: col_inv_def)
  from fold_colour_inv[OF this subset_refl] assms show ?thesis
    unfolding col_inv_def by blast
qed

lemma conflict_free_with_read_only:
  assumes "conflict_free b" "list_all (\<lambda>t. writes t = []) ro"
  shows "conflict_free (b @ ro)"
proof -
  have "\<forall>x\<in>set b. \<forall>y\<in>set ro. writes_disjoint x y"
    using assms(2) by (auto simp: list_all_iff writes_disjoint_def)
  with assms conflict_free_no_writes[OF assms(2)] show ?thesis
    by (simp add: conflict_free_append)
qed

lemma partition_split:
  "partition_by_conflicts tasks = manifest_batches tasks @ map (\<lambda>t. [t]) (filter no_manifest tasks)"
  by (simp add: partition_by_conflicts_def manifest_batches_def Let_def)

lemma manifest_batches_safe:
  assumes "b \<in> set (manifest_batches tasks)"
  shows "conflict_free b \<and> (\<forall>t\<in>set b. \<not> no_manifest t)"
proof -
  define safe where "safe = filter (\<lambda>t. \<not> no_manifest t) tasks"
  define ws where "ws = filter (\<lambda>t. writes t \<noteq> []) safe"
  define ro where "ro = filter (\<lambda>t. writes t = []) safe"
  define col where
    "col = fst (fold (colour_step (conflict_pairs_of (detect_file_conflicts ws))) ws ([], {}))"
  have mb: "manifest_batches tasks =
      (if safe \<noteq> [] then
         (if ro \<noteq> [] then (case col of c # cs \<Rightarrow> (c @ ro) # cs | [] \<Rightarrow> [ro]) else col)
       else [])"
    unfolding manifest_batches_def Let_def safe_def ws_def ro_def col_def by (rule refl)
  have safe: "\<forall>t\<in>set safe. \<not> no_manifest t" by (simp add: safe_def)
  have ws: "set ws \<subseteq> set safe" by (simp add: ws_def)
  have col: "conflict_free c \<and> (\<forall>t\<in>set c. \<not> no_manifest t)" if "c \<in> set col" for c
  proof -
    from coloured_batches[of c ws] that have "conflict_free c" "set c \<subseteq> set ws"
      unfolding col_def by simp_all
    with ws safe show ?thesis by blast
  qed
  have ro: "list_all (\<lambda>t. writes t = []) ro" "\<forall>t\<in>set ro. \<not> no_manifest t"
    using safe by (simp_all add: list_all_iff ro_def)
  show ?thesis
  proof (cases "safe = []")
    case True
    with assms show ?thesis by (simp add: mb)
  next
    case nonempty: False
    show ?thesis
    proof (cases "ro = []")
      case True
      with assms nonempty have "b \<in> set col" by (simp add: mb)
      then show ?thesis by (rule col)
    next
      case False
      show ?thesis
      proof (cases col)
        case Nil
        with assms nonempty False have beq: "b = ro" by (simp add: mb)
        from conflict_free_no_writes[OF ro(1)] ro(2) show ?thesis unfolding beq by blast
      next
        case (Cons c cs)
        with assms nonempty False have "b = c @ ro \<or> b \<in> set cs" by (simp add: mb)
        then show ?thesis
        proof
          assume beq: "b = c @ ro"
          from Cons have "c \<in> set col" by simp
          from col[OF this] have c: "conflict_free c" "\<forall>t\<in>set c. \<not> no_manifest t" by simp_all
          from conflict_free_with_read_only[OF c(1) ro(1)] c(2) ro(2) show ?thesis
            unfolding beq by auto
        next
          assume "b \<in> set cs"
          with Cons have "b \<in> set col" by simp
          then show ?thesis by (rule col)
        qed
      qed
    qed
  qed
qed

text \<open>
  Claim C2.  For every list of candidate tasks, no two tasks at different positions of
  one batch of \<open>partition_by_conflicts\<close> have intersecting \<open>writes\<close>, and every task
  that declares neither writes nor reads is the only member of a batch of its own and is
  in no other batch.
\<close>

theorem partition_by_conflicts_safe:
  "(\<forall>b\<in>set (partition_by_conflicts tasks). \<forall>i<length b. \<forall>j<length b.
       i \<noteq> j \<longrightarrow> set (writes (b ! i)) \<inter> set (writes (b ! j)) = {})
   \<and> (\<forall>t\<in>set tasks. writes t = [] \<and> reads t = [] \<longrightarrow>
         [t] \<in> set (partition_by_conflicts tasks)
         \<and> (\<forall>b\<in>set (partition_by_conflicts tasks). t \<in> set b \<longrightarrow> b = [t]))"
proof (intro conjI ballI allI impI)
  fix b i j
  assume b: "b \<in> set (partition_by_conflicts tasks)" and ij: "i < length b" "j < length b" "i \<noteq> j"
  from b have "b \<in> set (manifest_batches tasks) \<or> (\<exists>t. b = [t])"
    unfolding partition_split by auto
  then show "set (writes (b ! i)) \<inter> set (writes (b ! j)) = {}"
  proof
    assume "b \<in> set (manifest_batches tasks)"
    from manifest_batches_safe[OF this] have "conflict_free b" by simp
    from conflict_free_nth[OF this ij] show ?thesis .
  next
    assume "\<exists>t. b = [t]"
    with ij show ?thesis by auto
  qed
next
  fix t
  assume "t \<in> set tasks" "writes t = [] \<and> reads t = []"
  then show "[t] \<in> set (partition_by_conflicts tasks)"
    unfolding partition_split by (simp add: no_manifest_def)
next
  fix t b
  assume t: "t \<in> set tasks" "writes t = [] \<and> reads t = []"
    and b: "b \<in> set (partition_by_conflicts tasks)" "t \<in> set b"
  from t(2) have nm: "no_manifest t" by (simp add: no_manifest_def)
  from b(1) have "b \<in> set (manifest_batches tasks) \<or> (\<exists>u. b = [u])"
    unfolding partition_split by auto
  then show "b = [t]"
  proof
    assume "b \<in> set (manifest_batches tasks)"
    from manifest_batches_safe[OF this] b(2) nm show ?thesis by blast
  next
    assume "\<exists>u. b = [u]"
    with b(2) show ?thesis by auto
  qed
qed

theorem partition_by_conflicts_safe_witness:
  "new_task ''N'' ''not_started'' [] [] [] \<in> set
      [new_task ''A'' ''not_started'' [] [''x''] [],
       new_task ''N'' ''not_started'' [] [] [],
       new_task ''B'' ''not_started'' [] [''x'', ''y''] [],
       new_task ''C'' ''not_started'' [] [''z''] []]
   \<and> writes (new_task ''N'' ''not_started'' [] [] []) = []
   \<and> reads (new_task ''N'' ''not_started'' [] [] []) = []
   \<and> [new_task ''N'' ''not_started'' [] [] []] \<in> set (partition_by_conflicts
      [new_task ''A'' ''not_started'' [] [''x''] [],
       new_task ''N'' ''not_started'' [] [] [],
       new_task ''B'' ''not_started'' [] [''x'', ''y''] [],
       new_task ''C'' ''not_started'' [] [''z''] []])
   \<and> map (map task_id) (partition_by_conflicts
      [new_task ''A'' ''not_started'' [] [''x''] [],
       new_task ''N'' ''not_started'' [] [] [],
       new_task ''B'' ''not_started'' [] [''x'', ''y''] [],
       new_task ''C'' ''not_started'' [] [''z''] []])
     = [[''A'', ''C''], [''B''], [''N'']]"
proof -
  let ?N = "new_task ''N'' ''not_started'' [] [] []"
  let ?ts = "[new_task ''A'' ''not_started'' [] [''x''] [], ?N,
       new_task ''B'' ''not_started'' [] [''x'', ''y''] [],
       new_task ''C'' ''not_started'' [] [''z''] []]"
  have mem: "?N \<in> set ?ts" by simp
  have nm: "writes ?N = [] \<and> reads ?N = []" by (simp add: new_task_def)
  from partition_by_conflicts_safe[of ?ts] mem nm
  have single: "[?N] \<in> set (partition_by_conflicts ?ts)" by blast
  have eval: "map (map task_id) (partition_by_conflicts ?ts) = [[''A'', ''C''], [''B''], [''N'']]"
    by (simp add: partition_by_conflicts_def new_task_def no_manifest_def Let_def
      conflict_pairs_of_def shared_writes_def colour_step_def)
  from mem nm single eval show ?thesis by blast
qed

subsection \<open>Parent status aggregation\<close>

lemma derive_parent_status_eq: "derive_parent_status sts = derived_status sts"
  unfolding derive_parent_status_def derived_status_def list_all_iff list_ex_iff
  by auto

lemma task_index_map_Some:
  assumes "task_index_map ts sid = Some j"
  shows "j < length ts \<and> task_id (ts ! j) = sid"
proof -
  from assms have "(sid, j) \<in> set (zip (map task_id ts) [0..<length ts])"
    unfolding task_index_map_def by (auto dest: map_of_SomeD)
  then show ?thesis by (auto simp: in_set_zip)
qed

lemma task_index_map_ids:
  "map task_id ts' = map task_id ts \<Longrightarrow> task_index_map ts' = task_index_map ts"
proof -
  assume a: "map task_id ts' = map task_id ts"
  then have "length ts' = length ts" by (metis length_map)
  with a show ?thesis by (simp add: task_index_map_def)
qed

lemma length_update_parent_at [simp]: "length (update_parent_at m i ts) = length ts"
  by (simp add: update_parent_at_def Let_def)

lemma update_parent_at_other: "k \<noteq> i \<Longrightarrow> update_parent_at m i ts ! k = ts ! k"
  by (simp add: update_parent_at_def Let_def)

lemma map_update_same: "(map f ts)[i := f (ts ! i)] = map f ts"
  by (metis list_update_id map_update)

lemma update_parent_at_ids: "map task_id (update_parent_at m i ts) = map task_id ts"
  by (simp add: update_parent_at_def Let_def map_update map_update_same)

lemma update_parent_at_subtasks: "map subtasks (update_parent_at m i ts) = map subtasks ts"
  by (simp add: update_parent_at_def Let_def map_update map_update_same)

lemma subtask_statuses_cong:
  "(\<And>sid j. sid \<in> set subs \<Longrightarrow> m sid = Some j \<Longrightarrow> ts' ! j = ts ! j)
     \<Longrightarrow> subtask_statuses ts' m subs = subtask_statuses ts m subs"
  unfolding subtask_statuses_def
  by (rule arg_cong[where f = concat], rule map_cong) (auto split: option.splits)

lemma update_parent_at_step:
  assumes len: "length cur = length ts"
    and ids: "map task_id cur = map task_id ts"
    and subs: "map subtasks cur = map subtasks ts"
    and ord: "parents_first ts"
    and k: "k < length ts"
    and inv: "\<forall>i. k < i \<and> i < length ts \<longrightarrow> derived_at cur (task_index_map ts) i"
  shows "\<forall>i. k \<le> i \<and> i < length ts \<longrightarrow> derived_at (update_parent_at (task_index_map ts) k cur) (task_index_map ts) i"
proof (intro allI impI)
  fix i assume i: "k \<le> i \<and> i < length ts"
  let ?m = "task_index_map ts"
  let ?cur' = "update_parent_at ?m k cur"
  have sub_eq: "subtasks (cur ! i) = subtasks (ts ! i)"
    using subs i len by (metis nth_map)
  have later: "k < j" if "sid \<in> set (subtasks (cur ! i))" "?m sid = Some j" for sid j
  proof -
    from task_index_map_Some[OF that(2)] have "j < length ts" "task_id (ts ! j) = sid" by simp_all
    with ord that(1) i sub_eq have "i < j" unfolding parents_first_def by auto
    with i show ?thesis by simp
  qed
  have same: "subtask_statuses ?cur' ?m (subtasks (cur ! i)) = subtask_statuses cur ?m (subtasks (cur ! i))"
  proof (rule subtask_statuses_cong)
    fix sid j assume "sid \<in> set (subtasks (cur ! i))" "?m sid = Some j"
    from later[OF this] show "?cur' ! j = cur ! j" by (simp add: update_parent_at_other)
  qed
  show "derived_at ?cur' ?m i"
  proof (cases "i = k")
    case False
    with i have "k < i" by simp
    with inv i have "derived_at cur ?m i" by simp
    moreover from False have "?cur' ! i = cur ! i" by (simp add: update_parent_at_other)
    ultimately show ?thesis using same by (simp add: derived_at_def)
  next
    case True
    have kl: "k < length cur" using k len by simp
    show ?thesis
    proof (cases "subtasks (cur ! k) = [] \<or> subtask_statuses cur ?m (subtasks (cur ! k)) = []")
      case True
      then have "?cur' = cur" by (auto simp: update_parent_at_def Let_def)
      with True \<open>i = k\<close> show ?thesis by (auto simp: derived_at_def subtask_statuses_def)
    next
      case False
      then have upd: "?cur' = cur[k := (cur ! k)\<lparr>status := Some (derive_parent_status
            (subtask_statuses cur ?m (subtasks (cur ! k))))\<rparr>]"
        by (simp add: update_parent_at_def Let_def)
      have "subtasks (?cur' ! k) = subtasks (cur ! k)" unfolding upd using kl by simp
      moreover have "status (?cur' ! k) = Some (derive_parent_status
            (subtask_statuses cur ?m (subtasks (cur ! k))))" unfolding upd using kl by simp
      ultimately show ?thesis using same \<open>i = k\<close> by (simp add: derived_at_def)
    qed
  qed
qed

lemma rev_upt_step: "k < n \<Longrightarrow> rev [k..<n] = rev [Suc k..<n] @ [k]"
  by (simp add: upt_conv_Cons)

lemma update_loop_inv:
  assumes ord: "parents_first ts"
  shows "k \<le> length ts \<Longrightarrow>
    (let cur = fold (update_parent_at (task_index_map ts)) (rev [k..<length ts]) ts in
       length cur = length ts \<and> map task_id cur = map task_id ts \<and> map subtasks cur = map subtasks ts
       \<and> (\<forall>i. k \<le> i \<and> i < length ts \<longrightarrow> derived_at cur (task_index_map ts) i))"
proof (induction "length ts - k" arbitrary: k)
  case 0
  then have "k = length ts" by simp
  then show ?case by auto
next
  case (Suc d)
  then have k: "k < length ts" and d: "d = length ts - Suc k" and le: "Suc k \<le> length ts" by simp_all
  define cur where "cur = fold (update_parent_at (task_index_map ts)) (rev [Suc k..<length ts]) ts"
  from Suc.hyps(1)[OF d le]
  have ih: "length cur = length ts" "map task_id cur = map task_id ts" "map subtasks cur = map subtasks ts"
     "\<forall>i. Suc k \<le> i \<and> i < length ts \<longrightarrow> derived_at cur (task_index_map ts) i"
    unfolding cur_def Let_def by simp_all
  from ih(4) have inv: "\<forall>i. k < i \<and> i < length ts \<longrightarrow> derived_at cur (task_index_map ts) i" by simp
  have fold_eq: "fold (update_parent_at (task_index_map ts)) (rev [k..<length ts]) ts
      = update_parent_at (task_index_map ts) k cur"
    unfolding cur_def rev_upt_step[OF k] by simp
  from update_parent_at_step[OF ih(1,2,3) ord k inv] ih(1,2,3)
  show ?case unfolding Let_def fold_eq
    by (simp add: update_parent_at_ids update_parent_at_subtasks)
qed

text \<open>
  On a task list in document order (every task before the tasks its \<open>subtasks\<close> list
  names), one run of \<open>update_parent_statuses\<close> leaves every task that has a present
  subtask with the derived status, whatever its status was before.
\<close>

lemma update_parent_statuses_derived:
  assumes "parents_first ts" and "i < length ts"
    and "present_subtask_statuses (update_parent_statuses ts) i \<noteq> []"
  shows "status (update_parent_statuses ts ! i)
     = Some (derived_status (present_subtask_statuses (update_parent_statuses ts) i))"
proof -
  let ?after = "update_parent_statuses ts"
  from update_loop_inv[OF assms(1), of 0]
  have ids: "map task_id ?after = map task_id ts"
    and d: "derived_at ?after (task_index_map ts) i"
    using assms(2) unfolding update_parent_statuses_def Let_def by simp_all
  from task_index_map_ids[OF ids] have m: "task_index_map ?after = task_index_map ts" .
  from d assms(3) show ?thesis
    unfolding derived_at_def present_subtask_statuses_def m derive_parent_status_eq by simp
qed

text \<open>
  Claim C3.  After \<open>update_parent_statuses\<close> has run, every task with at least one
  subtask present in the state has the status derived from its direct subtasks'
  statuses.  The single pass over the reversed list establishes this where every task
  stands before its subtasks (\<open>update_parent_statuses_derived\<close>).  On a state that
  lists the subtask 1.1 before its parent 1, the pass visits 1 before 1.1: task 1 keeps
  \<open>not_started\<close> although its only subtask 1.1 ends \<open>completed\<close>.
\<close>

theorem update_parent_statuses_child_listed_first:
  "map (\<lambda>t. (task_id t, status t))
      (update_parent_statuses
        [new_task ''1.1'' ''not_started'' [''1.1.1''] [] [],
         new_task ''1'' ''not_started'' [''1.1''] [] [],
         new_task ''1.1.1'' ''completed'' [] [] []])
     = [(''1.1'', Some ''completed''), (''1'', Some ''not_started''), (''1.1.1'', Some ''completed'')]
   \<and> present_subtask_statuses
      (update_parent_statuses
        [new_task ''1.1'' ''not_started'' [''1.1.1''] [] [],
         new_task ''1'' ''not_started'' [''1.1''] [] [],
         new_task ''1.1.1'' ''completed'' [] [] []]) 1 = [''completed'']
   \<and> derive_parent_status [''completed''] = ''completed''"
  by (simp add: update_parent_statuses_def update_parent_at_def task_index_map_def new_task_def
      subtask_statuses_def present_subtask_statuses_def status_or_default_def derive_parent_status_def
      upt_rec Let_def)

subsection \<open>Timeout resolution\<close>

text \<open>
  For a value the sequential function reads as at least a minute (60000 or more), both
  functions give the value divided by 1000.
\<close>

lemma resolve_timeouts_agree_on_milliseconds:
  assumes "int_of_string (strip v) = Some p" "60000 \<le> p"
  shows "resolve_timeout_seconds (Some v) default_seconds = p div 1000
    \<and> resolve_codex_timeout_seconds (Some v) default_seconds 0 = p div 1000"
proof -
  have "int_of_string [] = None" by (simp add: int_of_string_def strip_def)
  with assms(1) have "strip v \<noteq> []" by auto
  with assms show ?thesis
    by (simp add: resolve_timeout_seconds_def resolve_codex_timeout_seconds_def Let_def)
qed

text \<open>
  Claim C4.  The sequential dispatcher's \<open>_resolve_timeout_seconds\<close> returns the timeout
  the multi-agent \<open>resolve_codex_timeout_seconds\<close> computes with the same default and no
  buffer.  With \<open>CODEX_TIMEOUT=7200\<close> and the default 7200 the multi-agent function reads
  7200 seconds, as its rule for values up to 10000 says; the sequential one divides
  every value by 1000 and returns 7.
\<close>

theorem resolve_timeout_seconds_reads_seconds_as_milliseconds:
  "resolve_timeout_seconds (Some ''7200'') 7200 = 7
   \<and> resolve_codex_timeout_seconds (Some ''7200'') 7200 0 = 7200"
  by (simp add: resolve_timeout_seconds_def resolve_codex_timeout_seconds_def int_of_string_def
      unsigned_of_string_def strip_def is_space_def is_digit_def digit_value_def Let_def)

subsection \<open>Classification of a sequential dispatch\<close>

text \<open>
  Claim C6, as stated: a message holding neither the \<open>TASK_DONE\<close> nor the \<open>HALT\<close>
  marker is classified by the exit code alone.  The message \<open><promise>COMPLETE</promise>\<close>
  holds neither, and with exit code 1 the dispatch is classified as completed.
\<close>

theorem dispatch_task_complete_marker_counterexample:
  "\<not> is_substring TASK_DONE_marker ''<promise>COMPLETE</promise>''
   \<and> \<not> is_substring HALT_marker ''<promise>COMPLETE</promise>''
   \<and> completed (dispatch_task_report ''3''
        [\<lparr>tr_task_id = Some ''task-3'', tr_message = Some ''<promise>COMPLETE</promise>'',
          tr_error = None, tr_exit_code = Some 1\<rparr>] 1 [] [])
   \<and> success (dispatch_task_report ''3''
        [\<lparr>tr_task_id = Some ''task-3'', tr_message = Some ''<promise>COMPLETE</promise>'',
          tr_error = None, tr_exit_code = Some 1\<rparr>] 1 [] [])
   \<and> exit_code_of ''3''
        [\<lparr>tr_task_id = Some ''task-3'', tr_message = Some ''<promise>COMPLETE</promise>'',
          tr_error = None, tr_exit_code = Some 1\<rparr>] 1 = 1"
  by (simp add: dispatch_task_report_def select_task_result_def TASK_DONE_marker_def
      COMPLETE_marker_def HALT_marker_def exit_code_of_def Let_def)

text \<open>
  Claim C6, amended.  For every non-empty list of task results whose selected entry's
  message holds none of the three markers \<open>TASK_DONE\<close>, \<open>COMPLETE\<close> and \<open>HALT\<close>, the
  dispatch is classified as completed (a success, not halted) exactly when the exit
  code is 0, and as a failure (not completed, not halted) otherwise.
\<close>

theorem dispatch_task_classified_by_exit_code:
  assumes "task_results \<noteq> []"
    and "\<not> is_substring TASK_DONE_marker (message_text_of tid task_results)"
    and "\<not> is_substring COMPLETE_marker (message_text_of tid task_results)"
    and "\<not> is_substring HALT_marker (message_text_of tid task_results)"
  shows "completed (dispatch_task_report tid task_results returncode stdout stderr)
           = (exit_code_of tid task_results returncode = 0)
       \<and> success (dispatch_task_report tid task_results returncode stdout stderr)
           = (exit_code_of tid task_results returncode = 0)
       \<and> \<not> halted (dispatch_task_report tid task_results returncode stdout stderr)"
  using assms
  by (simp add: dispatch_task_report_def message_text_of_def exit_code_of_def Let_def)

theorem dispatch_task_classified_by_exit_code_witness:
  "[\<lparr>tr_task_id = Some ''task-3'', tr_message = Some ''tests fail'',
          tr_error = Some ''boom'', tr_exit_code = Some 2\<rparr>] \<noteq> []
   \<and> \<not> completed (dispatch_task_report ''3''
        [\<lparr>tr_task_id = Some ''task-3'', tr_message = Some ''tests fail'',
          tr_error = Some ''boom'', tr_exit_code = Some 2\<rparr>] 0 [] [])
   \<and> \<not> success (dispatch_task_report ''3''
        [\<lparr>tr_task_id = Some ''task-3'', tr_message = Some ''tests fail'',
          tr_error = Some ''boom'', tr_exit_code = Some 2\<rparr>] 0 [] [])
   \<and> exit_code_of ''3'' [\<lparr>tr_task_id = Some ''task-3'', tr_message = Some ''tests fail'',
          tr_error = Some ''boom'', tr_exit_code = Some 2\<rparr>] 0 = 2"
  using dispatch_task_classified_by_exit_code
    [of "[\<lparr>tr_task_id = Some ''task-3'', tr_message = Some ''tests fail'',
          tr_error = Some ''boom'', tr_exit_code = Some 2\<rparr>]" "''3''" 0 "[]" "[]"]
  by (simp add: message_text_of_def exit_code_of_def select_task_result_def TASK_DONE_marker_def
      COMPLETE_marker_def HALT_marker_def)

subsection \<open>Dependency expansion\<close>

lemma fold_fromkeys:
  "fold (\<lambda>x acc. if x \<in> set acc then acc else acc @ [x]) xs acc
     = acc @ filter (\<lambda>y. y \<notin> set acc) (dict_fromkeys xs)"
proof (induction xs arbitrary: acc)
  case Nil
  then show ?case by (simp add: dict_fromkeys_def)
next
  case (Cons x xs)
  let ?step = "\<lambda>x acc. if x \<in> set acc then acc else acc @ [x]"
  have hd: "dict_fromkeys (x # xs) = x # filter (\<lambda>y. y \<noteq> x) (dict_fromkeys xs)"
    unfolding dict_fromkeys_def[of "x # xs"] using Cons.IH[of "[x]"] by simp
  show ?case
  proof (cases "x \<in> set acc")
    case True
    then have "fold ?step (x # xs) acc = fold ?step xs acc" by simp
    also have "\<dots> = acc @ filter (\<lambda>y. y \<notin> set acc) (dict_fromkeys xs)" by (rule Cons.IH)
    also have "filter (\<lambda>y. y \<notin> set acc) (dict_fromkeys xs)
        = filter (\<lambda>y. y \<notin> set acc) (dict_fromkeys (x # xs))"
      unfolding hd using True by (auto intro: filter_cong)
    finally show ?thesis .
  next
    case False
    then have "fold ?step (x # xs) acc = fold ?step xs (acc @ [x])" by simp
    also have "\<dots> = (acc @ [x]) @ filter (\<lambda>y. y \<notin> set (acc @ [x])) (dict_fromkeys xs)"
      by (rule Cons.IH)
    also have "\<dots> = acc @ filter (\<lambda>y. y \<notin> set acc) (dict_fromkeys (x # xs))"
      unfolding hd using False by (auto intro: filter_cong)
    finally show ?thesis .
  qed
qed

lemma dict_fromkeys_Cons:
  "dict_fromkeys (x # xs) = x # filter (\<lambda>y. y \<noteq> x) (dict_fromkeys xs)"
  unfolding dict_fromkeys_def[of "x # xs"] using fold_fromkeys[of xs "[x]"] by simp

lemma dict_fromkeys_Nil [simp]: "dict_fromkeys [] = []"
  by (simp add: dict_fromkeys_def)

lemma keep_first_filter: "keep_first (filter P xs) = filter P (keep_first xs)"
proof (induction xs rule: keep_first.induct)
  case 1
  then show ?case by simp
next
  case (2 x xs)
  have comm: "removeAll x (filter P xs) = filter P (removeAll x xs)"
    by (induction xs) auto
  show ?case
  proof (cases "P x")
    case True
    with 2 comm show ?thesis by simp
  next
    case False
    then have "filter P (removeAll x xs) = filter P xs"
      by (induction xs) auto
    with 2 False show ?thesis by simp
  qed
qed

lemma dict_fromkeys_filter: "dict_fromkeys (filter P xs) = filter P (dict_fromkeys xs)"
proof (induction xs)
  case Nil
  then show ?case by simp
next
  case (Cons x xs)
  have "filter (\<lambda>y. y \<noteq> x) (filter P (dict_fromkeys xs)) = filter P (filter (\<lambda>y. y \<noteq> x) (dict_fromkeys xs))"
    by (auto intro: filter_cong)
  moreover have "\<not> P x \<Longrightarrow> filter P (filter (\<lambda>y. y \<noteq> x) (dict_fromkeys xs)) = filter P (dict_fromkeys xs)"
    by (auto intro: filter_cong)
  ultimately show ?case using Cons by (simp add: dict_fromkeys_Cons)
qed

lemma dict_fromkeys_keep_first: "dict_fromkeys xs = keep_first xs"
proof (induction xs rule: keep_first.induct)
  case 1
  then show ?case by simp
next
  case (2 x xs)
  have "filter (\<lambda>y. y \<noteq> x) (dict_fromkeys xs) = dict_fromkeys (removeAll x xs)"
    by (simp add: dict_fromkeys_filter[symmetric] removeAll_filter_not_eq) metis
  then show ?case using 2 by (simp add: dict_fromkeys_Cons)
qed

lemma set_keep_first [simp]: "set (keep_first xs) = set xs"
  by (induction xs rule: keep_first.induct) auto

lemma distinct_keep_first [simp]: "distinct (keep_first xs)"
  by (induction xs rule: keep_first.induct) auto

lemma keep_first_distinct: "distinct xs \<Longrightarrow> keep_first xs = xs"
  by (induction xs) (auto simp: removeAll_id)

lemma keep_first_idem [simp]: "keep_first (keep_first xs) = keep_first xs"
  by (simp add: keep_first_distinct)

lemma keep_first_append:
  "keep_first (xs @ ys) = keep_first xs @ filter (\<lambda>y. y \<notin> set xs) (keep_first ys)"
proof (induction xs arbitrary: ys rule: keep_first.induct)
  case 1
  then show ?case by simp
next
  case (2 x xs)
  have "keep_first ((x # xs) @ ys) = x # keep_first (removeAll x xs @ removeAll x ys)" by simp
  also have "\<dots> = x # keep_first (removeAll x xs)
       @ filter (\<lambda>y. y \<notin> set (removeAll x xs)) (keep_first (removeAll x ys))"
    by (simp add: 2)
  also have "filter (\<lambda>y. y \<notin> set (removeAll x xs)) (keep_first (removeAll x ys))
       = filter (\<lambda>y. y \<notin> set (x # xs)) (keep_first ys)"
    by (simp add: removeAll_filter_not_eq keep_first_filter) (auto intro: filter_cong)
  finally show ?case by simp
qed

lemma keep_first_append_cong:
  assumes "keep_first xs = keep_first xs'" "keep_first ys = keep_first ys'"
  shows "keep_first (xs @ ys) = keep_first (xs' @ ys')"
proof -
  from assms(1) have "set xs = set xs'" by (metis set_keep_first)
  with assms show ?thesis by (simp add: keep_first_append)
qed

lemma keep_first_concat_cong:
  "list_all2 (\<lambda>r x. keep_first r = keep_first x) rs xs
     \<Longrightarrow> keep_first (concat rs) = keep_first (concat xs)"
proof (induction rule: list_all2_induct)
  case Nil
  then show ?case by simp
next
  case (Cons r rs x xs)
  from keep_first_append_cong[OF Cons.hyps(1) Cons.IH] show ?case by simp
qed

lemma keep_first_concat_map: "keep_first (concat (map keep_first xss)) = keep_first (concat xss)"
proof (rule keep_first_concat_cong)
  show "list_all2 (\<lambda>r x. keep_first r = keep_first x) (map keep_first xss) xss"
    by (induction xss) simp_all
qed

lemma those_map_Some:
  "list_all2 (\<lambda>d x. \<exists>r. F d = Some r \<and> P r x) ds xs
     \<Longrightarrow> \<exists>rs. those (map F ds) = Some rs \<and> list_all2 P rs xs"
proof (induction rule: list_all2_induct)
  case Nil
  then show ?case by simp
next
  case (Cons d ds x xs)
  from Cons.hyps(1) obtain r where r: "F d = Some r" "P r x" by blast
  from Cons.IH obtain rs where rs: "those (map F ds) = Some rs" "list_all2 P rs xs" by blast
  from r rs have "those (map F (d # ds)) = Some (r # rs) \<and> list_all2 P (r # rs) (x # xs)" by simp
  then show ?case by blast
qed

lemma expand_dependencies_flattened:
  "list_all2 (flattened m h) deps xss \<Longrightarrow> h < depth
     \<Longrightarrow> expand_dependencies depth deps m = Some (keep_first (concat xss))"
proof (induction depth arbitrary: h deps xss)
  case 0
  then show ?case by simp
next
  case (Suc d)
  define F where "F = (\<lambda>dep_id.
          case m dep_id of
            Some dep_task \<Rightarrow>
              if subtasks dep_task \<noteq> [] then
                map_option concat
                  (those (map (\<lambda>subtask_id. expand_dependencies d [subtask_id] m)
                     (subtasks dep_task)))
              else Some [dep_id]
          | None \<Rightarrow> Some [dep_id])"
  have one: "\<exists>r. F dep = Some r \<and> keep_first r = keep_first xs" if fl: "flattened m h dep xs" for dep xs
    using fl
  proof (cases rule: flattened.cases)
    case leaf
    then have "F dep = Some [dep]"
      by (auto simp: F_def names_parent_def split: option.splits)
    with leaf show ?thesis by simp
  next
    case (parent t h' xss')
    from parent(1) Suc.prems(2) have h': "h' < d" by simp
    have "list_all2 (\<lambda>sid x. \<exists>r. expand_dependencies d [sid] m = Some r \<and> r = keep_first x)
            (subtasks t) xss'"
    proof (rule list_all2_mono[OF parent(5)])
      fix sid x assume "flattened m h' sid x"
      then have "list_all2 (flattened m h') [sid] [x]" by simp
      from Suc.IH[OF this h'] show "\<exists>r. expand_dependencies d [sid] m = Some r \<and> r = keep_first x"
        by simp
    qed
    from those_map_Some[OF this] obtain rs where
      rs: "those (map (\<lambda>sid. expand_dependencies d [sid] m) (subtasks t)) = Some rs"
      "list_all2 (\<lambda>r x. r = keep_first x) rs xss'" by blast
    from rs(2) have "rs = map keep_first xss'"
      by (induction rule: list_all2_induct) simp_all
    with rs(1) parent(3,4) have "F dep = Some (concat (map keep_first xss'))"
      by (simp add: F_def)
    with parent(2) show ?thesis by (simp add: keep_first_concat_map)
  qed
  have "list_all2 (\<lambda>dep x. \<exists>r. F dep = Some r \<and> keep_first r = keep_first x) deps xss"
    by (rule list_all2_mono[OF Suc.prems(1)]) (rule one)
  from those_map_Some[OF this] obtain rs where
    rs: "those (map F deps) = Some rs" "list_all2 (\<lambda>r x. keep_first r = keep_first x) rs xss"
    by blast
  have "expand_dependencies (Suc d) deps m
      = map_option (\<lambda>parts. dict_fromkeys (concat parts)) (those (map F deps))"
    unfolding F_def by simp
  with rs(1) have "expand_dependencies (Suc d) deps m = Some (keep_first (concat rs))"
    by (simp add: dict_fromkeys_keep_first)
  with keep_first_concat_cong[OF rs(2)] show ?case by simp
qed

lemma expand_dependencies_leaves:
  assumes "distinct deps" "list_all (\<lambda>i. \<not> names_parent m i) deps"
  shows "expand_dependencies (Suc depth) deps m = Some deps"
proof -
  from assms(2) have "list_all2 (flattened m 0) deps (map (\<lambda>i. [i]) deps)"
    by (induction deps) (simp_all add: flattened.leaf)
  from expand_dependencies_flattened[OF this, of "Suc depth"]
  have "expand_dependencies (Suc depth) deps m = Some (keep_first (concat (map (\<lambda>i. [i]) deps)))"
    by simp
  moreover have "concat (map (\<lambda>i. [i]) deps) = deps" by (induction deps) simp_all
  ultimately show ?thesis using assms(1) by (simp add: keep_first_distinct)
qed

lemma flattened_nested_example:
  "list_all2 (flattened nested_example 2) [''p''] [[''a'', ''b1'', ''b2'']]"
proof -
  have leaf: "flattened nested_example h i [i]" if "i \<in> {''a'', ''b1'', ''b2''}" for i h
    using that by (auto intro!: flattened.leaf simp: names_parent_def nested_example_def new_task_def)
  have "flattened nested_example (Suc 0) ''b'' (concat [[''b1''], [''b2'']])"
  proof (rule flattened.parent[where t = "new_task ''b'' ''not_started'' [''b1'', ''b2''] [] []"])
    show "nested_example ''b'' = Some (new_task ''b'' ''not_started'' [''b1'', ''b2''] [] [])"
      by (simp add: nested_example_def)
    show "subtasks (new_task ''b'' ''not_started'' [''b1'', ''b2''] [] []) \<noteq> []"
      by (simp add: new_task_def)
    show "list_all2 (flattened nested_example 0)
        (subtasks (new_task ''b'' ''not_started'' [''b1'', ''b2''] [] [])) [[''b1''], [''b2'']]"
      by (simp add: new_task_def leaf)
  qed
  then have b: "flattened nested_example (Suc 0) ''b'' [''b1'', ''b2'']" by simp
  have "flattened nested_example (Suc (Suc 0)) ''p'' (concat [[''a''], [''b1'', ''b2'']])"
  proof (rule flattened.parent[where t = "new_task ''p'' ''not_started'' [''a'', ''b''] [] []"])
    show "nested_example ''p'' = Some (new_task ''p'' ''not_started'' [''a'', ''b''] [] [])"
      by (simp add: nested_example_def)
    show "subtasks (new_task ''p'' ''not_started'' [''a'', ''b''] [] []) \<noteq> []"
      by (simp add: new_task_def)
    show "list_all2 (flattened nested_example (Suc 0))
        (subtasks (new_task ''p'' ''not_started'' [''a'', ''b''] [] [])) [[''a''], [''b1'', ''b2'']]"
      by (simp add: new_task_def leaf b)
  qed
  then show ?thesis by (simp add: numeral_2_eq_2)
qed

lemma length_chain_id: "length (chain_id k) = 2 * k + 1"
  by (induction k) (simp_all add: chain_id_def)

lemma chain_id_inj:
  assumes "chain_id j = chain_id k"
  shows "j = k"
proof -
  from assms have "length (chain_id j) = length (chain_id k)" by (rule arg_cong)
  then have "2 * j + 1 = 2 * k + 1" by (simp only: length_chain_id)
  then show ?thesis by arith
qed

lemma map_of_chain:
  "k \<in> set ks \<Longrightarrow> map_of (map (\<lambda>k. (chain_id k, g k)) ks) (chain_id k) = Some (g k)"
  by (induction ks) (auto dest: chain_id_inj)

lemma chain_map_lookup:
  assumes "k \<le> n"
  shows "chain_map n (chain_id k)
          = Some (new_task (chain_id k) ''not_started'' (if k < n then [chain_id (Suc k)] else []) [] [])"
proof -
  from assms have "k \<in> set [0..<Suc n]" by auto
  from map_of_chain[OF this,
      where g = "\<lambda>k. new_task (chain_id k) ''not_started'' (if k < n then [chain_id (Suc k)] else []) [] []"]
  show ?thesis unfolding chain_map_def by (rule trans) (rule refl)
qed

lemma flattened_chain:
  "j + k = n \<Longrightarrow> flattened (chain_map n) j (chain_id k) [chain_id n]"
proof (induction j arbitrary: k)
  case 0
  then have "k = n" by simp
  then have "\<not> names_parent (chain_map n) (chain_id n)"
    by (simp add: names_parent_def chain_map_lookup new_task_def)
  with \<open>k = n\<close> show ?case by (simp add: flattened.leaf)
next
  case (Suc j)
  then have k: "k < n" "j + Suc k = n" by simp_all
  let ?t = "new_task (chain_id k) ''not_started'' [chain_id (Suc k)] [] []"
  have "flattened (chain_map n) (Suc j) (chain_id k) (concat [[chain_id n]])"
  proof (rule flattened.parent[where t = ?t])
    from k(1) show "chain_map n (chain_id k) = Some ?t" by (simp add: chain_map_lookup)
    show "subtasks ?t \<noteq> []" by (simp add: new_task_def)
    from Suc.IH[OF k(2)] show "list_all2 (flattened (chain_map n) j) (subtasks ?t) [[chain_id n]]"
      by (simp add: new_task_def)
  qed
  then show ?case by simp
qed

lemma expand_dependencies_chain_None:
  "depth + k \<le> n \<Longrightarrow> expand_dependencies depth [chain_id k] (chain_map n) = None"
proof (induction depth arbitrary: k)
  case 0
  then show ?case by simp
next
  case (Suc depth)
  then have k: "k < n" "depth + Suc k \<le> n" by simp_all
  from k(1) have "chain_map n (chain_id k)
      = Some (new_task (chain_id k) ''not_started'' [chain_id (Suc k)] [] [])"
    by (simp add: chain_map_lookup)
  with Suc.IH[OF k(2)] show ?case by (simp add: new_task_def)
qed

text \<open>
  Claim C8, as stated for every task map.  The parser builds the chain of nested tasks
  from a tasks.md that lists the ids \<open>1\<close>, \<open>1.1\<close>, \<open>1.1.1\<close>, ...; it has no cycle, and
  task 1 flattens to the one leaf at its end.  On the chain with as many levels of
  parents as nested calls are available (1000 in Python, unless the limit is changed),
  \<open>expand_dependencies\<close> uses them up and returns no list; one more call is enough.
  For the three-line tasks.md: with two nested calls nothing is returned, with three
  the result is \<open>[1.1.1]\<close>.
\<close>

theorem expand_dependencies_depth_counterexample:
  "(\<forall>n. list_all2 (flattened (chain_map n) n) [''1''] [[chain_id n]]
        \<and> expand_dependencies n [''1''] (chain_map n) = None
        \<and> expand_dependencies (Suc n) [''1''] (chain_map n) = Some [chain_id n])
   \<and> map (\<lambda>t. (pt_task_id t, pt_subtasks t))
        (result_tasks (parse_tasks
           (''- [ ] 1 A'' @ [CHR 0x0A] @ ''- [ ] 1.1 B'' @ [CHR 0x0A] @ ''- [ ] 1.1.1 C'')))
      = [(chain_id 0, [chain_id 1]), (chain_id 1, [chain_id 2]), (chain_id 2, [])]
   \<and> chain_id 2 = ''1.1.1''
   \<and> expand_dependencies 2 [''1''] (chain_map 2) = None
   \<and> expand_dependencies 3 [''1''] (chain_map 2) = Some [''1.1.1'']"
proof -
  have id0: "chain_id 0 = ''1''" by (simp add: chain_id_def)
  have general: "list_all2 (flattened (chain_map n) n) [''1''] [[chain_id n]]
        \<and> expand_dependencies n [''1''] (chain_map n) = None
        \<and> expand_dependencies (Suc n) [''1''] (chain_map n) = Some [chain_id n]" for n
  proof -
    from flattened_chain[of n 0 n] have f: "list_all2 (flattened (chain_map n) n) [''1''] [[chain_id n]]"
      by (simp add: id0)
    from expand_dependencies_chain_None[of n 0 n]
    have e: "expand_dependencies n [''1''] (chain_map n) = None" by (simp add: id0)
    from expand_dependencies_flattened[OF f, of "Suc n"]
    have "expand_dependencies (Suc n) [''1''] (chain_map n) = Some [chain_id n]" by simp
    with f e show ?thesis by blast
  qed
  have parsed: "map (\<lambda>t. (pt_task_id t, pt_subtasks t))
        (result_tasks (parse_tasks
           (''- [ ] 1 A'' @ [CHR 0x0A] @ ''- [ ] 1.1 B'' @ [CHR 0x0A] @ ''- [ ] 1.1.1 C'')))
      = [(chain_id 0, [chain_id 1]), (chain_id 1, [chain_id 2]), (chain_id 2, [])]"
    by code_simp
  have id2: "chain_id 2 = ''1.1.1''" by code_simp
  from general[of 2] id2 have two: "expand_dependencies 2 [''1''] (chain_map 2) = None"
    "expand_dependencies 3 [''1''] (chain_map 2) = Some [''1.1.1'']"
    by (simp_all add: numeral_3_eq_3)
  from general parsed id2 two show ?thesis by blast
qed

text \<open>
  Claim C8, amended.  For every task map and dependency list whose ids flatten through
  fewer levels of parents than nested calls are available, \<open>expand_dependencies\<close>
  returns the flattened lists of leaf descendants of the ids that name a task with
  subtasks, every other id unchanged, de-duplicated in first-seen order.  A
  duplicate-free list of ids none of which names a task with subtasks is returned
  unchanged, and the dependency on \<open>p\<close> of the example expands to exactly
  \<open>[a, b1, b2]\<close>.
\<close>

theorem expand_dependencies_flattens:
  "(list_all2 (flattened task_map h) deps xss \<and> h < depth
      \<longrightarrow> expand_dependencies depth deps task_map = Some (keep_first (concat xss)))
   \<and> (distinct deps \<and> list_all (\<lambda>i. \<not> names_parent task_map i) deps
      \<longrightarrow> expand_dependencies (Suc depth) deps task_map = Some deps)
   \<and> (2 < depth \<longrightarrow> expand_dependencies depth [''p''] nested_example = Some [''a'', ''b1'', ''b2''])"
proof (intro conjI impI)
  assume "list_all2 (flattened task_map h) deps xss \<and> h < depth"
  then show "expand_dependencies depth deps task_map = Some (keep_first (concat xss))"
    using expand_dependencies_flattened by blast
next
  assume "distinct deps \<and> list_all (\<lambda>i. \<not> names_parent task_map i) deps"
  then show "expand_dependencies (Suc depth) deps task_map = Some deps"
    using expand_dependencies_leaves by blast
next
  assume "2 < depth"
  from expand_dependencies_flattened[OF flattened_nested_example this]
  show "expand_dependencies depth [''p''] nested_example = Some [''a'', ''b1'', ''b2'']"
    by simp
qed

theorem expand_dependencies_flattens_witness:
  "list_all2 (flattened nested_example 2) [''p''] [[''a'', ''b1'', ''b2'']]
   \<and> expand_dependencies 3 [''p''] nested_example = Some [''a'', ''b1'', ''b2'']
   \<and> distinct [''a'', ''z'']
   \<and> list_all (\<lambda>i. \<not> names_parent nested_example i) [''a'', ''z'']
   \<and> expand_dependencies 1 [''a'', ''z''] nested_example = Some [''a'', ''z'']"
proof -
  have d: "distinct [''a'', ''z'']" by simp
  have l: "list_all (\<lambda>i. \<not> names_parent nested_example i) [''a'', ''z'']"
    by (simp add: names_parent_def nested_example_def new_task_def)
  from expand_dependencies_flattens[of nested_example 2 "[''p'']" "[[''a'', ''b1'', ''b2'']]" 3]
    flattened_nested_example
  have e3: "expand_dependencies 3 [''p''] nested_example = Some [''a'', ''b1'', ''b2'']" by simp
  from expand_dependencies_flattens[of nested_example 0 "[''a'', ''z'']" "[]" 0] d l
  have e1: "expand_dependencies 1 [''a'', ''z''] nested_example = Some [''a'', ''z'']" by simp
  from flattened_nested_example e3 d l e1 show ?thesis by blast
qed

subsection \<open>Review consolidation\<close>

lemma block_dependent_tasks_frame:
  "st_final_reports (fst (block_dependent_tasks depth now st tid reason)) = st_final_reports st
   \<and> st_review_findings (fst (block_dependent_tasks depth now st tid reason)) = st_review_findings st"
  by (simp add: block_dependent_tasks_def split: option.splits)

lemma enter_fix_loop_frame:
  "st_final_reports (fst (enter_fix_loop depth clock st tid fs)) = st_final_reports st
   \<and> st_review_findings (fst (enter_fix_loop depth clock st tid fs)) = st_review_findings st"
  by (simp add: enter_fix_loop_def Let_def block_dependent_tasks_frame split: option.splits)

lemma update_task_to_completed_frame:
  "st_final_reports (update_task_to_completed now st tid) = st_final_reports st
   \<and> st_review_findings (update_task_to_completed now st tid) = st_review_findings st"
  by (simp add: update_task_to_completed_def Let_def split: option.splits)

lemma consolidate_findings_task_id:
  "consolidate_findings now st tid = Some report \<Longrightarrow> fr_task_id report = tid"
  by (auto simp: consolidate_findings_def Let_def split: if_splits)

lemma consolidate_single_task_reports:
  "st_final_reports (fst (consolidate_single_task depth clock st tid ac))
     = (if has_existing_final_report st tid then st_final_reports st
        else (case consolidate_findings (clock 0) st tid of
                None \<Rightarrow> st_final_reports st
              | Some report \<Rightarrow> st_final_reports st @ [FinalReport_to_dict report]))"
proof (cases "has_existing_final_report st tid")
  case True
  then show ?thesis by (simp add: consolidate_single_task_def)
next
  case False
  show ?thesis
  proof (cases "consolidate_findings (clock 0) st tid")
    case None
    with False show ?thesis by (simp add: consolidate_single_task_def)
  next
    case (Some report)
    let ?st1 = "add_final_report st report"
    have r1: "st_final_reports ?st1 = st_final_reports st @ [FinalReport_to_dict report]"
      by (simp add: add_final_report_def)
    show ?thesis
    proof (cases "should_enter_fix_loop (fr_overall_severity report)")
      case True
      obtain st2 r where e: "enter_fix_loop depth clock ?st1 tid (fr_findings report) = (st2, r)"
        by (cases "enter_fix_loop depth clock ?st1 tid (fr_findings report)")
      from enter_fix_loop_frame[of depth clock ?st1 tid "fr_findings report"] e r1
      have "st_final_reports st2 = st_final_reports st @ [FinalReport_to_dict report]" by simp
      with False Some True e show ?thesis
        by (cases r) (simp_all add: consolidate_single_task_def Let_def)
    next
      case nofix: False
      from update_task_to_completed_frame[of "clock 1" ?st1 tid] r1
      have "st_final_reports (update_task_to_completed (clock 1) ?st1 tid)
          = st_final_reports st @ [FinalReport_to_dict report]" by simp
      with False Some nofix r1 show ?thesis
        by (simp add: consolidate_single_task_def Let_def)
    qed
  qed
qed

lemma has_existing_after_first:
  assumes "\<not> has_existing_final_report st tid" "consolidate_findings (clock 0) st tid = Some report"
  shows "has_existing_final_report (fst (consolidate_single_task depth clock st tid ac)) tid"
proof -
  from consolidate_findings_task_id[OF assms(2)]
  have "map_of (FinalReport_to_dict report) ''task_id'' = Some (JStr tid)"
    by (simp add: FinalReport_to_dict_def)
  then show ?thesis
    unfolding has_existing_final_report_def consolidate_single_task_reports
    using assms by (simp add: list_ex_iff)
qed

lemma consolidate_findings_cong:
  "st_review_findings st' = st_review_findings st
     \<Longrightarrow> (consolidate_findings now st' tid = None) = (consolidate_findings now' st tid = None)"
  by (simp add: consolidate_findings_def get_review_findings_for_task_def Let_def)

text \<open>
  Claim C9.  For every state, task id, recursion depth, clock and auto-complete flag of
  either call: after a first call of \<open>consolidate_single_task\<close>, however it ended, a
  second call for the same task returns no report and leaves the state, and so the
  \<open>final_reports\<close> list, unchanged; the two calls together add at most one final
  report for the task, so a state with at most one report for the task keeps at most
  one.
\<close>

theorem consolidate_single_task_idempotent:
  "consolidate_single_task depth' clock'
       (fst (consolidate_single_task depth clock st tid auto_complete)) tid auto_complete'
     = (fst (consolidate_single_task depth clock st tid auto_complete), Returned None)
   \<and> reports_for (fst (consolidate_single_task depth clock st tid auto_complete)) tid
       \<le> max 1 (reports_for st tid)"
proof
  let ?s1 = "fst (consolidate_single_task depth clock st tid auto_complete)"
  show "consolidate_single_task depth' clock' ?s1 tid auto_complete' = (?s1, Returned None)"
  proof (cases "has_existing_final_report st tid")
    case True
    then have "?s1 = st" by (simp add: consolidate_single_task_def)
    with True show ?thesis by (simp add: consolidate_single_task_def)
  next
    case False
    show ?thesis
    proof (cases "consolidate_findings (clock 0) st tid")
      case None
      with False have s1: "?s1 = st" by (simp add: consolidate_single_task_def)
      from None consolidate_findings_cong[of st st "clock' 0" tid "clock 0"]
      have "consolidate_findings (clock' 0) st tid = None" by simp
      with s1 show ?thesis by (simp add: consolidate_single_task_def)
    next
      case (Some report)
      from has_existing_after_first[of st tid clock report depth auto_complete] False Some
      have "has_existing_final_report ?s1 tid" by simp
      then show ?thesis by (simp add: consolidate_single_task_def)
    qed
  qed
  show "reports_for ?s1 tid \<le> max 1 (reports_for st tid)"
  proof (cases "has_existing_final_report st tid")
    case True
    then show ?thesis
      unfolding reports_for_def consolidate_single_task_reports by simp
  next
    case False
    then have "reports_for st tid = 0"
      by (simp add: reports_for_def has_existing_final_report_def list_ex_iff filter_empty_conv)
    then show ?thesis
      using False unfolding reports_for_def consolidate_single_task_reports
      by (simp split: option.splits)
  qed
qed

text \<open>
  Claim C7, as stated: the record appended to \<open>final_reports\<close> holds a \<open>findings\<close>
  field.  Consolidating task 1 of the example state returns a report that carries the
  finding, and appends a record with five keys, none of them \<open>findings\<close>.
\<close>

theorem final_report_record_counterexample:
  "map (map fst) (st_final_reports (fst (consolidate_single_task 10 (\<lambda>k. ''t1'') reviewed_example ''1'' True)))
     = [[''task_id'', ''overall_severity'', ''summary'', ''finding_count'', ''created_at'']]
   \<and> map_of (last (st_final_reports
        (fst (consolidate_single_task 10 (\<lambda>k. ''t1'') reviewed_example ''1'' True)))) ''findings'' = None
   \<and> map_option fr_findings (consolidate_findings ''t1'' reviewed_example ''1'')
       = Some (st_review_findings reviewed_example)"
proof -
  have c: "consolidate_findings ''t1'' reviewed_example ''1''
      = Some \<lparr>fr_task_id = ''1'',
               fr_overall_severity = determine_overall_severity (st_review_findings reviewed_example),
               fr_summary = generate_summary (st_review_findings reviewed_example) ''1'',
               fr_finding_count = 1,
               fr_findings = st_review_findings reviewed_example,
               fr_created_at = ''t1''\<rparr>"
    by (simp add: consolidate_findings_def get_review_findings_for_task_def reviewed_example_def Let_def)
  have h: "\<not> has_existing_final_report reviewed_example ''1''"
    by (simp add: has_existing_final_report_def reviewed_example_def)
  have "st_final_reports (fst (consolidate_single_task 10 (\<lambda>k. ''t1'') reviewed_example ''1'' True))
      = [FinalReport_to_dict \<lparr>fr_task_id = ''1'',
               fr_overall_severity = determine_overall_severity (st_review_findings reviewed_example),
               fr_summary = generate_summary (st_review_findings reviewed_example) ''1'',
               fr_finding_count = 1,
               fr_findings = st_review_findings reviewed_example,
               fr_created_at = ''t1''\<rparr>]"
    unfolding consolidate_single_task_reports using c h by (simp add: reviewed_example_def)
  with c show ?thesis by (simp add: FinalReport_to_dict_def)
qed

text \<open>
  Claim C7, amended.  Every record review consolidation appends to \<open>final_reports\<close> is
  the \<open>to_dict\<close> of the report: it holds the fields \<open>task_id\<close>, \<open>overall_severity\<close>,
  \<open>summary\<close>, \<open>finding_count\<close> and \<open>created_at\<close> with the report's values, and no
  \<open>findings\<close> field.  \<open>consolidate_single_task\<close> appends one such record, or none.
\<close>

theorem final_report_record_fields:
  "st_final_reports (add_final_report st report) = st_final_reports st @ [FinalReport_to_dict report]
   \<and> FinalReport_to_dict report =
        [(''task_id'', JStr (fr_task_id report)),
         (''overall_severity'', JStr (fr_overall_severity report)),
         (''summary'', JStr (fr_summary report)),
         (''finding_count'', JInt (int (fr_finding_count report))),
         (''created_at'', JStr (fr_created_at report))]
   \<and> map_of (FinalReport_to_dict report) ''findings'' = None
   \<and> st_final_reports (fst (consolidate_single_task depth clock st tid auto_complete))
       = (if has_existing_final_report st tid then st_final_reports st
          else (case consolidate_findings (clock 0) st tid of
                  None \<Rightarrow> st_final_reports st
                | Some r \<Rightarrow> st_final_reports st @ [FinalReport_to_dict r]))"
  unfolding consolidate_single_task_reports
  by (simp add: add_final_report_def FinalReport_to_dict_def)

subsection \<open>The task line grammar and the parser\<close>





































text \<open>
  Claim C10.  For the three lines \<open>- [ ] 1 First\<close>, \<open>- [ ] later\<close>, \<open>- [ ] 2 Second\<close>:
  the first and the third are task lines; the second passes the marker-and-checkbox
  test but has no id, and is recorded as a parse error at line 2.  Before that error
  task 1 is appended to the list and stays the current task, so the third line appends
  it again: the returned list refers to the same object twice, then to task 2, and its
  ids are not distinct.
\<close>

theorem parse_tasks_appends_task_twice:
  "fst (parse_task_line ''- [ ] 1 First'') = Some ''1''
   \<and> re_match checkbox_prefix_pattern ''- [ ] later'' \<noteq> None
   \<and> fst (parse_task_line ''- [ ] later'') = None
   \<and> fst (parse_task_line ''- [ ] 2 Second'') = Some ''2''
   \<and> pr_tasks (parse_tasks three_lines) = [0, 0, 1]
   \<and> map pt_task_id (result_tasks (parse_tasks three_lines)) = [''1'', ''1'', ''2'']
   \<and> map pe_line (pr_errors (parse_tasks three_lines)) = [2]
   \<and> \<not> distinct (map pt_task_id (result_tasks (parse_tasks three_lines)))"
  by code_simp

end
